theory Spec2Isabelle
  imports Main "HOL-Library.Sublist" "HOL-Library.Multiset"
begin

section \<open>The crawler of seed\_url.py\<close>

text \<open>
  The module crawls one web domain from a seed URL. Strings are modelled as
  \<^typ>\<open>string\<close> (lists of characters with the code points 0 to 255); Python sets as
  \<^typ>\<open>'a set\<close>. The headless browser and
  \<^verbatim>\<open>urllib.parse.urlparse\<close> are library code outside the module: they are parameters
  of the model, collected in a \<open>world\<close>.
\<close>

subsection \<open>Module constants\<close>

type_synonym url = string

definition CONCURRENT_WORKERS :: nat where
  "CONCURRENT_WORKERS = 16"

definition BASE_DOMAIN :: string where
  "BASE_DOMAIN = ''yc.go.kr''"

definition START_URL :: url where
  "START_URL = ''https://yc.go.kr/main.do''"

definition MAX_PAGES :: nat where
  "MAX_PAGES = 80000"

definition CHECK_INTERVAL :: nat where
  "CHECK_INTERVAL = 500"

definition IGNORED_DOMAINS :: "string list" where
  "IGNORED_DOMAINS =
     [''facebook.com'', ''instagram.com'', ''youtube.com'', ''twitter.com'',
      ''naver.com'', ''daum.net'', ''kakao.com'', ''google.com'', ''gov.kr'', ''mail.'']"

definition EXCLUDED_EXTENSIONS :: "string list" where
  "EXCLUDED_EXTENSIONS =
     [''.jpg'', ''.jpeg'', ''.png'', ''.gif'', ''.bmp'', ''.svg'',
      ''.zip'', ''.rar'', ''.tar'', ''.gz'', ''.7z'',
      ''.pdf'', ''.hwp'', ''.doc'', ''.docx'', ''.xls'', ''.xlsx'',
      ''.ppt'', ''.pptx'', ''.mp4'', ''.avi'', ''.mp3'', ''.wav'',
      ''.exe'', ''.apk'', ''.dll'', ''.git'', ''.download'']"

subsection \<open>Exceptions and the library boundary\<close>

text \<open>
  Every exception the module can meet is an instance of Python's \<^verbatim>\<open>Exception\<close>:
  \<^verbatim>\<open>ValueError\<close> from \<^verbatim>\<open>urlparse\<close> (and from \<^verbatim>\<open>ThreadPoolExecutor\<close>), and Playwright's
  \<^verbatim>\<open>Error\<close> and \<^verbatim>\<open>TimeoutError\<close>. Each carries its message, which \<^verbatim>\<open>str(e)\<close> returns.
\<close>

datatype py_exception =
    ValueError string
  | PlaywrightError string
  | PlaywrightTimeoutError string

fun str :: "py_exception \<Rightarrow> string" where
  "str (ValueError m) = m"
| "str (PlaywrightError m) = m"
| "str (PlaywrightTimeoutError m) = m"

text \<open>The six fields of \<^verbatim>\<open>urllib.parse.ParseResult\<close>.\<close>

record parse_result =
  scheme :: string
  netloc :: string
  path :: string
  params :: string
  query :: string
  fragment :: string

text \<open>
  The world outside the module: \<open>render url\<close> is what lines 47 to 54 of
  \<^verbatim>\<open>process_page\<close> produce (launching the browser, navigating, waiting for the network
  to be idle and reading the \<^verbatim>\<open>href\<close> of every anchor): the list of hrefs, or the
  exception raised on the way; \<open>urlparse\<close> is the library function, which returns a
  parse result or raises \<^verbatim>\<open>ValueError\<close>.
\<close>

record world =
  render :: "url \<Rightarrow> py_exception + string list"
  urlparse :: "string \<Rightarrow> py_exception + parse_result"

subsection \<open>String helpers: \<^verbatim>\<open>strip\<close>, \<^verbatim>\<open>lower\<close>, \<^verbatim>\<open>split("#")[0]\<close>\<close>

text \<open>
  A character of type \<^typ>\<open>char\<close> is a code point below 256, so the strings of the model
  are the Python strings over the code points 0 to 255. On these, \<^verbatim>\<open>str.isspace\<close> holds
  for the code points 9 to 13, 28 to 32, 133 (next line) and 160 (no-break space), and
  \<^verbatim>\<open>str.lower\<close> adds 32 to the code points 65 to 90 (A to Z) and 192 to 222 except 215
  (the capital letters of Latin-1; 215 is the multiplication sign) and leaves every other
  code point as it is. \<^verbatim>\<open>strip()\<close> without argument removes the leading and the trailing
  characters for which \<^verbatim>\<open>isspace\<close> holds.
\<close>

definition isspace :: "char \<Rightarrow> bool" where
  "isspace c =
     (let n = (of_char c :: nat) in
        (9 \<le> n \<and> n \<le> 13) \<or> (28 \<le> n \<and> n \<le> 32) \<or> n = 133 \<or> n = 160)"

definition strip :: "string \<Rightarrow> string" where
  "strip s = rev (dropWhile isspace (rev (dropWhile isspace s)))"

definition lower_char :: "char \<Rightarrow> char" where
  "lower_char c =
     (let n = (of_char c :: nat) in
        if (65 \<le> n \<and> n \<le> 90) \<or> (192 \<le> n \<and> n \<le> 222 \<and> n \<noteq> 215)
        then char_of (n + 32) else c)"

definition lower :: "string \<Rightarrow> string" where
  "lower s = map lower_char s"

definition before_hash :: "string \<Rightarrow> string" where
  "before_hash href = takeWhile (\<lambda>c. c \<noteq> CHR ''#'') href"

subsection \<open>\<^verbatim>\<open>is_valid_link\<close>\<close>

text \<open>
  \<^verbatim>\<open>startswith\<close> is \<^const>\<open>prefix\<close>, \<^verbatim>\<open>endswith\<close> is \<^const>\<open>suffix\<close>, and \<^verbatim>\<open>d in s\<close> on strings
  is \<^const>\<open>sublist\<close> (a contiguous part). The function returns a boolean, or raises what
  \<^verbatim>\<open>urlparse\<close> raises.
\<close>

definition is_valid_link :: "(string \<Rightarrow> py_exception + parse_result) \<Rightarrow> string \<Rightarrow> py_exception + bool" where
  "is_valid_link up href0 =
     (if href0 = [] then Inr False
      else
        let href = lower (strip href0) in
        if prefix ''mailto:'' href \<or> prefix ''javascript:'' href \<or> prefix ''tel:'' href
        then Inr False
        else
          (case up href of
             Inl e \<Rightarrow> Inl e
           | Inr parsed \<Rightarrow>
               let full_check_target = path parsed @ query parsed in
               if list_ex (\<lambda>ext. suffix ext full_check_target) EXCLUDED_EXTENSIONS
               then Inr False
               else if scheme parsed \<noteq> [] \<and> scheme parsed \<notin> set [''http'', ''https'']
               then Inr False
               else if list_ex (\<lambda>domain. sublist domain href) IGNORED_DOMAINS
               then Inr False
               else Inr (sublist BASE_DOMAIN (netloc parsed))))"

subsection \<open>\<^verbatim>\<open>process_page\<close>\<close>

text \<open>
  The loop of lines 56 to 59: every href the filter accepts is added, cut at its first
  \<^verbatim>\<open>#\<close>, to the set of valid links. An exception of the filter leaves the loop.
\<close>

fun collect_links ::
  "(string \<Rightarrow> py_exception + parse_result) \<Rightarrow> string list \<Rightarrow> url set \<Rightarrow> py_exception + url set" where
  "collect_links up [] valid_links = Inr valid_links"
| "collect_links up (href # hrefs) valid_links =
     (case is_valid_link up href of
        Inl e \<Rightarrow> Inl e
      | Inr ok \<Rightarrow>
          collect_links up hrefs
            (if ok then insert (before_hash href) valid_links else valid_links))"

text \<open>The body of the \<^verbatim>\<open>try\<close> block: it returns the triple of line 60, or raises.\<close>

definition process_page_try :: "world \<Rightarrow> url \<Rightarrow> py_exception + (url \<times> url set \<times> string option)" where
  "process_page_try w u =
     (case render w u of
        Inl e \<Rightarrow> Inl e
      | Inr hrefs \<Rightarrow>
          (case collect_links (urlparse w) hrefs {} of
             Inl e \<Rightarrow> Inl e
           | Inr valid_links \<Rightarrow> Inr (u, valid_links, None)))"

text \<open>
  The function with its handler \<^verbatim>\<open>except Exception as e\<close>. The result is a sum, as for
  every function that could raise; \<open>Inl\<close> would be an exception that leaves
  \<^verbatim>\<open>process_page\<close>.
\<close>

definition process_page :: "world \<Rightarrow> url \<Rightarrow> py_exception + (url \<times> url set \<times> string option)" where
  "process_page w u =
     (case process_page_try w u of
        Inr result \<Rightarrow> Inr result
      | Inl e \<Rightarrow> Inr (u, {}, Some (str e)))"

subsection \<open>\<^verbatim>\<open>crawl_all_parallel\<close>\<close>

text \<open>
  The four constants the crawl loop reads. \<open>module_config\<close> holds the values of the
  source.
\<close>

record config =
  start_url :: url
  max_pages :: nat
  concurrent_workers :: nat
  check_interval :: nat

definition module_config :: config where
  "module_config =
     \<lparr>start_url = START_URL, max_pages = MAX_PAGES,
      concurrent_workers = CONCURRENT_WORKERS, check_interval = CHECK_INTERVAL\<rparr>"

text \<open>The local variables of \<^verbatim>\<open>crawl_all_parallel\<close> (the progress bar apart).\<close>

record crawl_state =
  to_visit :: "url set"
  visited :: "url set"
  all_links :: "url set"
  failed_urls :: "url set"
  last_check :: nat

definition initial_state :: "config \<Rightarrow> crawl_state" where
  "initial_state cfg =
     \<lparr>to_visit = {start_url cfg}, visited = {}, all_links = {}, failed_urls = {},
      last_check = 0\<rparr>"

text \<open>The condition of the \<^verbatim>\<open>while\<close> loop (line 76).\<close>

definition loop_cond :: "config \<Rightarrow> crawl_state \<Rightarrow> bool" where
  "loop_cond cfg s = (to_visit s \<noteq> {} \<and> card (visited s) < max_pages cfg)"

text \<open>
  Python's truth value of \<^verbatim>\<open>error\<close> (line 90): \<^verbatim>\<open>None\<close> and the empty string are
  false.
\<close>

fun truthy :: "string option \<Rightarrow> bool" where
  "truthy None = False"
| "truthy (Some m) = (m \<noteq> [])"

text \<open>The body of the loop over the results (lines 87 to 95).\<close>

fun merge_result :: "crawl_state \<Rightarrow> url \<times> url set \<times> string option \<Rightarrow> crawl_state" where
  "merge_result s (u, new_links, error) =
     (let s1 = s\<lparr>visited := insert u (visited s)\<rparr> in
      if truthy error then s1\<lparr>failed_urls := insert u (failed_urls s1)\<rparr>
      else
        let filtered_links = new_links - visited s1 - to_visit s1 in
        s1\<lparr>to_visit := to_visit s1 \<union> filtered_links,
           all_links := all_links s1 \<union> filtered_links\<rparr>)"

text \<open>
  \<^verbatim>\<open>list(to_visit)[:CONCURRENT_WORKERS]\<close> lists the set in an order Python does not
  fix and keeps the first elements: a batch is any list of distinct members of
  \<open>to_visit\<close> that has \<open>concurrent_workers\<close> elements, or all of them when there are
  fewer.
\<close>

definition is_batch :: "config \<Rightarrow> crawl_state \<Rightarrow> url list \<Rightarrow> bool" where
  "is_batch cfg s current_batch =
     (distinct current_batch \<and> set current_batch \<subseteq> to_visit s \<and>
      length current_batch = min (concurrent_workers cfg) (card (to_visit s)))"

text \<open>
  \<^verbatim>\<open>as_completed\<close> yields the futures in the order they complete: \<open>completed\<close> is the
  batch in that order, any permutation of it.
\<close>

definition is_completion_order :: "url list \<Rightarrow> url list \<Rightarrow> bool" where
  "is_completion_order current_batch completed = (mset completed = mset current_batch)"

text \<open>
  The futures' results in completion order (lines 82 to 84); \<^verbatim>\<open>future.result()\<close>
  re-raises what the call raised.
\<close>

fun gather :: "world \<Rightarrow> url list \<Rightarrow> py_exception + (url \<times> url set \<times> string option) list" where
  "gather w [] = Inr []"
| "gather w (u # us) =
     (case process_page w u of
        Inl e \<Rightarrow> Inl e
      | Inr r \<Rightarrow> (case gather w us of Inl e \<Rightarrow> Inl e | Inr rs \<Rightarrow> Inr (r # rs)))"

text \<open>The periodic check of lines 98 to 102 (the printed line apart).\<close>

definition progress_check :: "config \<Rightarrow> crawl_state \<Rightarrow> crawl_state" where
  "progress_check cfg s =
     (if int (card (visited s)) - int (last_check s) \<ge> int (check_interval cfg)
      then s\<lparr>last_check := card (visited s)\<rparr> else s)"

text \<open>
  One pass of the loop body, for a batch and a completion order.
  \<^verbatim>\<open>ThreadPoolExecutor(max_workers=0)\<close> raises \<^verbatim>\<open>ValueError\<close>.
\<close>

definition round_step ::
  "config \<Rightarrow> world \<Rightarrow> crawl_state \<Rightarrow> url list \<Rightarrow> url list \<Rightarrow> py_exception + crawl_state" where
  "round_step cfg w s current_batch completed =
     (let s1 = s\<lparr>to_visit := to_visit s - set current_batch\<rparr> in
      if concurrent_workers cfg = 0
      then Inl (ValueError ''max_workers must be greater than 0'')
      else
        (case gather w completed of
           Inl e \<Rightarrow> Inl e
         | Inr results \<Rightarrow> Inr (progress_check cfg (foldl merge_result s1 results))))"

text \<open>
  \<open>round cfg w s s'\<close>: the loop is entered in state \<open>s\<close> and one pass, for some batch
  and some completion order, ends in \<open>s'\<close>.
\<close>

inductive round :: "config \<Rightarrow> world \<Rightarrow> crawl_state \<Rightarrow> crawl_state \<Rightarrow> bool"
  for cfg :: config and w :: world where
  roundI:
    "loop_cond cfg s \<Longrightarrow> is_batch cfg s current_batch \<Longrightarrow>
     is_completion_order current_batch completed \<Longrightarrow>
     round_step cfg w s current_batch completed = Inr s' \<Longrightarrow> round cfg w s s'"

text \<open>The states at the head of the loop.\<close>

inductive reachable :: "config \<Rightarrow> world \<Rightarrow> crawl_state \<Rightarrow> bool"
  for cfg :: config and w :: world where
  reach_init: "reachable cfg w (initial_state cfg)"
| reach_round: "reachable cfg w s \<Longrightarrow> round cfg w s s' \<Longrightarrow> reachable cfg w s'"

text \<open>The states in which the loop exits: what lines 105 to 113 persist and print.\<close>

definition crawl_exit :: "config \<Rightarrow> world \<Rightarrow> crawl_state \<Rightarrow> bool" where
  "crawl_exit cfg w s = (reachable cfg w s \<and> \<not> loop_cond cfg s)"

subsection \<open>Example worlds\<close>

text \<open>
  Concrete inputs for the examples below. \<open>demo_urlparse\<close> gives what \<^verbatim>\<open>urlparse\<close>
  returns on a URL of the form \<^verbatim>\<open>https://yc.go.kr<path>#<fragment>\<close> with no query and
  no parameters; the examples apply it to such URLs only.
\<close>

definition demo_urlparse :: "string \<Rightarrow> py_exception + parse_result" where
  "demo_urlparse href =
     Inr \<lparr>scheme = ''https'', netloc = ''yc.go.kr'',
          path = drop 16 (takeWhile (\<lambda>c. c \<noteq> CHR ''#'') href),
          params = [], query = [],
          fragment = drop 1 (dropWhile (\<lambda>c. c \<noteq> CHR ''#'') href)\<rparr>"

text \<open>
  The scenario of the specification: the seed links to A and B, A links to B and C, the
  fetch of B times out, and C has no links.
\<close>

definition page_A :: url where
  "page_A = ''https://yc.go.kr/a''"

definition page_B :: url where
  "page_B = ''https://yc.go.kr/b''"

definition page_C :: url where
  "page_C = ''https://yc.go.kr/c''"

definition scenario_render :: "url \<Rightarrow> py_exception + string list" where
  "scenario_render u =
     (if u = START_URL then Inr [page_A, page_B]
      else if u = page_A then Inr [page_B, page_C]
      else if u = page_B then Inl (PlaywrightTimeoutError ''Timeout 7000ms exceeded.'')
      else Inr [])"

definition scenario_world :: world where
  "scenario_world = \<lparr>render = scenario_render, urlparse = demo_urlparse\<rparr>"

definition scenario_config :: config where
  "scenario_config =
     \<lparr>start_url = START_URL, max_pages = 100, concurrent_workers = 2,
      check_interval = CHECK_INTERVAL\<rparr>"

definition scenario_state1 :: crawl_state where
  "scenario_state1 =
     \<lparr>to_visit = {page_A, page_B}, visited = {START_URL}, all_links = {page_A, page_B},
      failed_urls = {}, last_check = 0\<rparr>"

definition scenario_state2 :: crawl_state where
  "scenario_state2 =
     \<lparr>to_visit = {page_B, page_C}, visited = {START_URL, page_A, page_B},
      all_links = {page_A, page_B, page_C}, failed_urls = {page_B}, last_check = 0\<rparr>"

text \<open>A configuration with a cap of two pages and two workers.\<close>

definition small_cap_config :: config where
  "small_cap_config =
     \<lparr>start_url = START_URL, max_pages = 2, concurrent_workers = 2,
      check_interval = CHECK_INTERVAL\<rparr>"

text \<open>
  The states, up to \<open>last_check\<close>, that the runs of the scenario pass through, for a seed
  S and pages A, B and C.
\<close>

definition scenario_inv :: "url \<Rightarrow> url \<Rightarrow> url \<Rightarrow> url \<Rightarrow> crawl_state \<Rightarrow> bool" where
  "scenario_inv S A B C s =
     ((to_visit s = {S} \<and> visited s = {} \<and> all_links s = {} \<and> failed_urls s = {}) \<or>
      (to_visit s = {A, B} \<and> visited s = {S} \<and> all_links s = {A, B} \<and> failed_urls s = {}) \<or>
      (to_visit s = {C} \<and> visited s = {S, A, B} \<and> all_links s = {A, B, C} \<and> failed_urls s = {B}) \<or>
      (to_visit s = {B, C} \<and> visited s = {S, A, B} \<and> all_links s = {A, B, C} \<and> failed_urls s = {B}) \<or>
      (to_visit s = {} \<and> visited s = {S, A, B, C} \<and> all_links s = {A, B, C} \<and> failed_urls s = {B}))"

text \<open>
  The scenario with a fetch of B that raises an exception whose message is empty, and
  the states of the run in which B completes before A.
\<close>

definition silent_render :: "url \<Rightarrow> py_exception + string list" where
  "silent_render u =
     (if u = START_URL then Inr [page_A, page_B]
      else if u = page_A then Inr [page_B, page_C]
      else if u = page_B then Inl (PlaywrightTimeoutError [])
      else Inr [])"

definition silent_world :: world where
  "silent_world = \<lparr>render = silent_render, urlparse = demo_urlparse\<rparr>"

definition silent_state2 :: crawl_state where
  "silent_state2 =
     \<lparr>to_visit = {page_C}, visited = {START_URL, page_A, page_B},
      all_links = {page_A, page_B, page_C}, failed_urls = {}, last_check = 0\<rparr>"

definition silent_final :: crawl_state where
  "silent_final =
     \<lparr>to_visit = {}, visited = {START_URL, page_A, page_B, page_C},
      all_links = {page_A, page_B, page_C}, failed_urls = {}, last_check = 0\<rparr>"

text \<open>
  A world in which a page links back to the seed: the seed links to A; A links to the
  seed and to \<^verbatim>\<open>https://yc.go.kr/c#top\<close>; C has no links. The three states are those
  of its run.
\<close>

definition home_link_render :: "url \<Rightarrow> py_exception + string list" where
  "home_link_render u =
     (if u = START_URL then Inr [page_A]
      else if u = page_A then Inr [START_URL, ''https://yc.go.kr/c#top'']
      else Inr [])"

definition home_link_world :: world where
  "home_link_world = \<lparr>render = home_link_render, urlparse = demo_urlparse\<rparr>"

definition home_link_state1 :: crawl_state where
  "home_link_state1 =
     \<lparr>to_visit = {page_A}, visited = {START_URL}, all_links = {page_A},
      failed_urls = {}, last_check = 0\<rparr>"

definition home_link_state2 :: crawl_state where
  "home_link_state2 =
     \<lparr>to_visit = {page_C}, visited = {START_URL, page_A}, all_links = {page_A, page_C},
      failed_urls = {}, last_check = 0\<rparr>"

definition home_link_final :: crawl_state where
  "home_link_final =
     \<lparr>to_visit = {}, visited = {START_URL, page_A, page_C}, all_links = {page_A, page_C},
      failed_urls = {}, last_check = 0\<rparr>"

section \<open>Properties\<close>

subsection \<open>What \<^const>\<open>process_page\<close> and one merge do\<close>

lemma process_page_total: "\<exists>links err. process_page w u = Inr (u, links, err)"
  by (auto simp: process_page_def process_page_try_def split: sum.splits)

lemma collect_links_finite:
  "collect_links up hrefs acc = Inr links \<Longrightarrow> finite acc \<Longrightarrow> finite links"
  by (induction hrefs arbitrary: acc) (auto split: sum.splits if_splits)

lemma process_page_finite: "process_page w u = Inr (u', links, err) \<Longrightarrow> finite links"
  by (auto simp: process_page_def process_page_try_def split: sum.splits
      dest: collect_links_finite)

lemma process_page_error_no_links:
  "process_page w u = Inr (u', links, Some m) \<Longrightarrow> links = {}"
  by (auto simp: process_page_def process_page_try_def split: sum.splits)

lemma gather_results:
  "\<exists>rs. gather w us = Inr rs \<and> map fst rs = us \<and> (\<forall>r \<in> set rs. process_page w (fst r) = Inr r)"
proof (induction us)
  case Nil show ?case by simp
next
  case (Cons u us)
  obtain links err where "process_page w u = Inr (u, links, err)"
    using process_page_total by blast
  with Cons show ?case by auto
qed

lemma visited_merge: "visited (merge_result s (u, l, e)) = insert u (visited s)"
  by (simp add: Let_def)

lemma failed_merge: "failed_urls (merge_result s (u, l, e)) = (if truthy e then insert u (failed_urls s) else failed_urls s)"
  by (simp add: Let_def)

lemma to_visit_merge: "to_visit (merge_result s (u, l, e)) = (if truthy e then to_visit s else to_visit s \<union> (l - insert u (visited s)))"
  by (auto simp add: Let_def)

lemma all_links_merge: "all_links (merge_result s (u, l, e)) = (if truthy e then all_links s else all_links s \<union> (l - insert u (visited s) - to_visit s))"
  by (auto simp add: Let_def)

lemma last_check_merge: "last_check (merge_result s r) = last_check s"
  by (cases r) (simp add: Let_def)

lemma visited_foldl: "visited (foldl merge_result s rs) = visited s \<union> fst ` set rs"
proof (induction rs arbitrary: s)
  case Nil show ?case by simp
next
  case (Cons r rs)
  obtain u l e where r: "r = (u, l, e)" by (cases r)
  show ?case unfolding r foldl_Cons Cons.IH visited_merge by auto
qed

lemma all_links_foldl: "all_links s \<subseteq> all_links (foldl merge_result s rs)"
proof (induction rs arbitrary: s)
  case Nil show ?case by simp
next
  case (Cons r rs)
  obtain u l e where r: "r = (u, l, e)" by (cases r)
  have "all_links s \<subseteq> all_links (merge_result s r)"
    unfolding r all_links_merge by auto
  with Cons[of "merge_result s r"] show ?case by auto
qed

lemma to_visit_foldl: "to_visit s \<subseteq> to_visit (foldl merge_result s rs)"
proof (induction rs arbitrary: s)
  case Nil show ?case by simp
next
  case (Cons r rs)
  obtain u l e where r: "r = (u, l, e)" by (cases r)
  have "to_visit s \<subseteq> to_visit (merge_result s r)"
    unfolding r to_visit_merge by auto
  with Cons[of "merge_result s r"] show ?case by auto
qed

lemma to_visit_foldl_fresh:
  "to_visit (foldl merge_result s rs) \<inter> visited s \<subseteq> to_visit s"
proof (induction rs arbitrary: s)
  case Nil show ?case by simp
next
  case (Cons r rs)
  obtain u l e where r: "r = (u, l, e)" by (cases r)
  have "to_visit (foldl merge_result (merge_result s r) rs) \<inter> visited (merge_result s r)
          \<subseteq> to_visit (merge_result s r)"
    by (rule Cons.IH)
  then show ?case unfolding r foldl_Cons visited_merge to_visit_merge
    by (auto split: if_splits)
qed

lemma failed_foldl: "failed_urls (foldl merge_result s rs) = failed_urls s \<union> {u. \<exists>l e. (u, l, e) \<in> set rs \<and> truthy e}"
proof (induction rs arbitrary: s)
  case Nil show ?case by simp
next
  case (Cons r rs)
  obtain u l e where r: "r = (u, l, e)" by (cases r)
  show ?case unfolding r foldl_Cons Cons.IH failed_merge by auto
qed

lemma last_check_foldl: "last_check (foldl merge_result s rs) = last_check s"
  by (induction rs arbitrary: s) (simp_all add: last_check_merge)

lemma finite_to_visit_foldl:
  "finite (to_visit s) \<Longrightarrow> \<forall>r \<in> set rs. finite (fst (snd r)) \<Longrightarrow>
   finite (to_visit (foldl merge_result s rs))"
proof (induction rs arbitrary: s)
  case Nil then show ?case by simp
next
  case (Cons r rs)
  obtain u l e where r: "r = (u, l, e)" by (cases r)
  from Cons.prems have "finite l" by (simp add: r)
  with Cons.prems have "finite (to_visit (merge_result s r))"
    unfolding r to_visit_merge by auto
  with Cons.IH[of "merge_result s r"] Cons.prems show ?case by simp
qed

lemma finite_all_links_foldl:
  "finite (all_links s) \<Longrightarrow> \<forall>r \<in> set rs. finite (fst (snd r)) \<Longrightarrow>
   finite (all_links (foldl merge_result s rs))"
proof (induction rs arbitrary: s)
  case Nil then show ?case by simp
next
  case (Cons r rs)
  obtain u l e where r: "r = (u, l, e)" by (cases r)
  from Cons.prems have "finite l" by (simp add: r)
  with Cons.prems have "finite (all_links (merge_result s r))"
    unfolding r all_links_merge by auto
  with Cons.IH[of "merge_result s r"] Cons.prems show ?case by simp
qed

lemma progress_check_fields:
  "to_visit (progress_check cfg s) = to_visit s"
  "visited (progress_check cfg s) = visited s"
  "all_links (progress_check cfg s) = all_links s"
  "failed_urls (progress_check cfg s) = failed_urls s"
  by (simp_all add: progress_check_def)

lemma round_cases:
  assumes "round cfg w s s'"
  obtains current_batch rs where
    "loop_cond cfg s" "is_batch cfg s current_batch" "0 < concurrent_workers cfg"
    "fst ` set rs = set current_batch"
    "\<forall>r \<in> set rs. process_page w (fst r) = Inr r"
    "s' = progress_check cfg (foldl merge_result (s\<lparr>to_visit := to_visit s - set current_batch\<rparr>) rs)"
  using assms
proof cases
  case (roundI current_batch completed)
  obtain rs where rs: "gather w completed = Inr rs" "map fst rs = completed"
    "\<forall>r \<in> set rs. process_page w (fst r) = Inr r"
    using gather_results by blast
  from roundI(3) have "set completed = set current_batch"
    unfolding is_completion_order_def by (rule mset_eq_setD)
  with rs(2) have "fst ` set rs = set current_batch"
    by (metis set_map)
  moreover from roundI(4) rs(1) have "0 < concurrent_workers cfg"
    and "s' = progress_check cfg (foldl merge_result (s\<lparr>to_visit := to_visit s - set current_batch\<rparr>) rs)"
    by (auto simp: round_step_def Let_def split: if_splits)
  ultimately show ?thesis using roundI(1,2) rs(3) that by blast
qed


subsection \<open>The URL filter\<close>



subsection \<open>The page worker\<close>

text \<open>
  C6. For every URL, \<^verbatim>\<open>process_page\<close> never lets an exception out: it returns
  \<open>(url, links, None)\<close> when the body of its \<^verbatim>\<open>try\<close> succeeds, and
  \<open>(url, {}, Some (str e))\<close>, with an empty link set and an error message that is not
  \<^verbatim>\<open>None\<close>, when navigation, loading or link extraction raises \<open>e\<close>.
\<close>

theorem process_page_never_raises:
  "(\<exists>links. process_page_try w u = Inr (u, links, None) \<and>
             process_page w u = Inr (u, links, None)) \<or>
   (\<exists>e. process_page_try w u = Inl e \<and> process_page w u = Inr (u, {}, Some (str e)))"
  by (auto simp: process_page_def process_page_try_def split: sum.splits)

subsection \<open>One round, and the states the loop reaches\<close>

lemma round_effect:
  assumes "round cfg w s s'"
  obtains current_batch rs where
    "loop_cond cfg s" "is_batch cfg s current_batch" "0 < concurrent_workers cfg"
    "fst ` set rs = set current_batch"
    "\<forall>r \<in> set rs. process_page w (fst r) = Inr r"
    "visited s' = visited s \<union> set current_batch"
    "failed_urls s' = failed_urls s \<union> {u. \<exists>l e. (u, l, e) \<in> set rs \<and> truthy e}"
    "all_links s \<subseteq> all_links s'"
    "to_visit s - set current_batch \<subseteq> to_visit s'"
    "to_visit s' \<inter> visited s \<subseteq> to_visit s - set current_batch"
    "finite (to_visit s) \<Longrightarrow> finite (to_visit s')"
    "finite (all_links s) \<Longrightarrow> finite (all_links s')"
proof -
  from assms obtain current_batch rs where r:
    "loop_cond cfg s" "is_batch cfg s current_batch" "0 < concurrent_workers cfg"
    "fst ` set rs = set current_batch"
    "\<forall>r \<in> set rs. process_page w (fst r) = Inr r"
    "s' = progress_check cfg (foldl merge_result (s\<lparr>to_visit := to_visit s - set current_batch\<rparr>) rs)"
    by (rule round_cases)
  let ?s1 = "s\<lparr>to_visit := to_visit s - set current_batch\<rparr>"
  have fin: "\<forall>r \<in> set rs. finite (fst (snd r))"
  proof
    fix r assume "r \<in> set rs"
    with r(5) have "process_page w (fst r) = Inr (fst r, fst (snd r), snd (snd r))" by simp
    then show "finite (fst (snd r))" by (rule process_page_finite)
  qed
  have 1: "visited s' = visited s \<union> set current_batch"
    using r(4) by (simp add: r(6) progress_check_fields visited_foldl)
  have 2: "failed_urls s' = failed_urls s \<union> {u. \<exists>l e. (u, l, e) \<in> set rs \<and> truthy e}"
    by (simp add: r(6) progress_check_fields failed_foldl)
  have 3: "all_links s \<subseteq> all_links s'"
    using all_links_foldl[of ?s1 rs] by (simp add: r(6) progress_check_fields)
  have 4: "to_visit s - set current_batch \<subseteq> to_visit s'"
    using to_visit_foldl[of ?s1 rs] by (simp add: r(6) progress_check_fields)
  have 5: "to_visit s' \<inter> visited s \<subseteq> to_visit s - set current_batch"
    using to_visit_foldl_fresh[of ?s1 rs] by (simp add: r(6) progress_check_fields)
  have 6: "finite (to_visit s')" if "finite (to_visit s)"
    using finite_to_visit_foldl[of ?s1 rs] that fin by (simp add: r(6) progress_check_fields)
  have 7: "finite (all_links s')" if "finite (all_links s)"
    using finite_all_links_foldl[of ?s1 rs] that fin by (simp add: r(6) progress_check_fields)
  show ?thesis using that[OF r(1-5) 1 2 3 4 5 6 7] by blast
qed

lemma reachable_finite:
  "reachable cfg w s \<Longrightarrow>
   finite (to_visit s) \<and> finite (visited s) \<and> finite (all_links s) \<and> finite (failed_urls s)"
proof (induction rule: reachable.induct)
  case reach_init
  show ?case by (simp add: initial_state_def)
next
  case (reach_round s s')
  from reach_round(2) show ?case
  proof (rule round_effect)
    fix current_batch rs
    assume e: "fst ` set rs = set current_batch"
      "visited s' = visited s \<union> set current_batch"
      "failed_urls s' = failed_urls s \<union> {u. \<exists>l e. (u, l, e) \<in> set rs \<and> truthy e}"
      "finite (to_visit s) \<Longrightarrow> finite (to_visit s')"
      "finite (all_links s) \<Longrightarrow> finite (all_links s')"
    have "{u. \<exists>l e. (u, l, e) \<in> set rs \<and> truthy e} \<subseteq> fst ` set rs" by force
    then have "finite {u. \<exists>l e. (u, l, e) \<in> set rs \<and> truthy e}"
      by (rule finite_subset) simp
    with reach_round(3) e show ?thesis by simp
  qed
qed

lemma is_batch_length:
  assumes "is_batch cfg s current_batch"
  shows "length current_batch \<le> concurrent_workers cfg"
    and "card (set current_batch) = length current_batch"
    and "set current_batch \<subseteq> to_visit s"
  using assms by (simp_all add: is_batch_def distinct_card)

lemma is_batch_nonempty:
  assumes "is_batch cfg s current_batch" "0 < concurrent_workers cfg"
    "finite (to_visit s)" "to_visit s \<noteq> {}"
  shows "set current_batch \<noteq> {}"
proof -
  from assms(3,4) have "0 < card (to_visit s)" by (simp add: card_gt_0_iff)
  with assms(1,2) have "0 < length current_batch" by (simp add: is_batch_def)
  then show ?thesis by simp
qed

text \<open>The loop cannot be stuck: with a worker, a round is possible whenever the loop is entered.\<close>

lemma round_possible:
  assumes "finite (to_visit s)" "loop_cond cfg s" "0 < concurrent_workers cfg"
  shows "\<exists>s'. round cfg w s s'"
proof -
  from assms(1) obtain xs where xs: "set xs = to_visit s" "distinct xs"
    using finite_distinct_list by blast
  let ?b = "take (concurrent_workers cfg) xs"
  from xs have "card (to_visit s) = length xs" by (metis distinct_card)
  with xs have b: "is_batch cfg s ?b"
    by (auto simp: is_batch_def dest: in_set_takeD)
  obtain rs where "gather w ?b = Inr rs" using gather_results by blast
  with assms(3) have "\<exists>s'. round_step cfg w s ?b ?b = Inr s'"
    by (simp add: round_step_def)
  then obtain s' where "round_step cfg w s ?b ?b = Inr s'" ..
  with assms(2) b have "round cfg w s s'"
    by (intro roundI[where current_batch = ?b and completed = ?b])
       (simp_all add: is_completion_order_def)
  then show ?thesis ..
qed

text \<open>Termination: a round adds a page to \<open>visited\<close>, or takes one out of the overlap
  of \<open>to_visit\<close> and \<open>visited\<close>.\<close>

lemma round_decreases:
  assumes "round cfg w s s'" "finite (to_visit s)" "finite (visited s)"
  shows "(s', s) \<in> measures [\<lambda>s. max_pages cfg - card (visited s),
                              \<lambda>s. card (to_visit s \<inter> visited s)]"
  using assms(1)
proof (rule round_effect)
  fix current_batch rs
  assume e: "loop_cond cfg s" "is_batch cfg s current_batch" "0 < concurrent_workers cfg"
    "visited s' = visited s \<union> set current_batch"
    "to_visit s' \<inter> visited s \<subseteq> to_visit s - set current_batch"
  from e(1) have lt: "card (visited s) < max_pages cfg" and ne: "to_visit s \<noteq> {}"
    by (simp_all add: loop_cond_def)
  from e(2,3) assms(2) ne have bne: "set current_batch \<noteq> {}" by (rule is_batch_nonempty)
  have bsub: "set current_batch \<subseteq> to_visit s" using e(2) by (rule is_batch_length)
  show ?thesis
  proof (cases "set current_batch \<subseteq> visited s")
    case True
    then have v: "visited s' = visited s" using e(4) by auto
    have "to_visit s' \<inter> visited s' \<subseteq> (to_visit s \<inter> visited s) - set current_batch"
      using e(5) v by auto
    also have "\<dots> \<subset> to_visit s \<inter> visited s"
    proof -
      from bne obtain x where "x \<in> set current_batch"
        by (cases current_batch) auto
      with True bsub have "x \<in> to_visit s \<inter> visited s"
        "x \<notin> (to_visit s \<inter> visited s) - set current_batch" by auto
      then show ?thesis by blast
    qed
    finally have "card (to_visit s' \<inter> visited s') < card (to_visit s \<inter> visited s)"
      using assms(3) by (intro psubset_card_mono) auto
    with v show ?thesis by simp
  next
    case False
    then have "visited s \<subset> visited s'" using e(4) by auto
    moreover have "finite (visited s')" using e(4) assms(3) by simp
    ultimately have "card (visited s) < card (visited s')" by (rule psubset_card_mono[rotated])
    with lt have "max_pages cfg - card (visited s') < max_pages cfg - card (visited s)" by arith
    then show ?thesis by simp
  qed
qed

lemma crawl_wf: "wf {(s', s). reachable cfg w s \<and> round cfg w s s'}"
proof (rule wf_subset)
  show "wf (measures [\<lambda>s. max_pages cfg - card (visited s),
                              \<lambda>s. card (to_visit s \<inter> visited s)])" by simp
  show "{(s', s). reachable cfg w s \<and> round cfg w s s'}
     \<subseteq> measures [\<lambda>s. max_pages cfg - card (visited s),
                              \<lambda>s. card (to_visit s \<inter> visited s)]"
  proof clarify
    fix s' s assume r: "reachable cfg w s" "round cfg w s s'"
    from reachable_finite[OF r(1)] have "finite (to_visit s)" "finite (visited s)" by simp_all
    with r(2) show "(s', s) \<in> measures [\<lambda>s. max_pages cfg - card (visited s),
                              \<lambda>s. card (to_visit s \<inter> visited s)]"
      by (rule round_decreases)
  qed
qed

lemma crawl_exit_exists:
  assumes "0 < concurrent_workers cfg"
  shows "\<exists>s. crawl_exit cfg w s"
proof -
  let ?R = "{(s', s). reachable cfg w s \<and> round cfg w s s'}"
  obtain z where z: "z \<in> {s. reachable cfg w s}"
    "\<And>y. (y, z) \<in> ?R \<Longrightarrow> y \<notin> {s. reachable cfg w s}"
    by (rule wfE_min[OF crawl_wf[of cfg w], of "initial_state cfg" "{s. reachable cfg w s}"])
       (auto simp: reach_init)
  from z(1) have rz: "reachable cfg w z" by simp
  have "\<not> loop_cond cfg z"
  proof
    assume lc: "loop_cond cfg z"
    from reachable_finite[OF rz] have "finite (to_visit z)" by simp
    from round_possible[OF this lc assms] obtain s' where s': "round cfg w z s'" ..
    with rz have "reachable cfg w s'" by (rule reach_round)
    moreover from rz s' have "(s', z) \<in> ?R" by simp
    ultimately show False using z(2) by blast
  qed
  with rz show ?thesis by (auto simp: crawl_exit_def)
qed


subsection \<open>The scenario, evaluated\<close>

lemma scenario_distinct:
  "START_URL \<noteq> page_A" "START_URL \<noteq> page_B" "START_URL \<noteq> page_C"
  "page_A \<noteq> page_B" "page_A \<noteq> page_C" "page_B \<noteq> page_C"
  by (simp_all add: START_URL_def page_A_def page_B_def page_C_def)

lemma pp_S: "process_page scenario_world START_URL = Inr (START_URL, {page_A, page_B}, None)"
  by code_simp

lemma pp_A: "process_page scenario_world page_A = Inr (page_A, {page_B, page_C}, None)"
  by code_simp

lemma pp_B:
  "process_page scenario_world page_B = Inr (page_B, {}, Some ''Timeout 7000ms exceeded.'')"
  by code_simp

lemma pp_C: "process_page scenario_world page_C = Inr (page_C, {}, None)"
  by code_simp

lemma pp_try_B:
  "process_page_try scenario_world page_B = Inl (PlaywrightTimeoutError ''Timeout 7000ms exceeded.'')"
  by code_simp

text \<open>
  The first two rounds of the scenario, the second with A completing before B, for every
  configuration with the module's seed, a cap above one page and at least two workers.
\<close>

lemma scenario_round1_gen:
  assumes "start_url cfg = START_URL" "0 < max_pages cfg" "0 < concurrent_workers cfg"
    "3 < check_interval cfg"
  shows "round cfg scenario_world (initial_state cfg) scenario_state1"
proof (rule roundI[where current_batch = "[START_URL]" and completed = "[START_URL]"])
  show "loop_cond cfg (initial_state cfg)"
    using assms by (simp add: loop_cond_def initial_state_def)
  show "is_batch cfg (initial_state cfg) [START_URL]"
    using assms by (simp add: is_batch_def initial_state_def)
  show "is_completion_order [START_URL] [START_URL]"
    by (simp add: is_completion_order_def)
  show "round_step cfg scenario_world (initial_state cfg) [START_URL] [START_URL]
          = Inr scenario_state1"
    using scenario_distinct assms
    by (auto simp: round_step_def pp_S initial_state_def scenario_state1_def
        progress_check_def Let_def)
qed

lemma scenario_round2_gen:
  assumes "1 < max_pages cfg" "1 < concurrent_workers cfg" "3 < check_interval cfg"
  shows "round cfg scenario_world scenario_state1 scenario_state2"
proof (rule roundI[where current_batch = "[page_A, page_B]" and completed = "[page_A, page_B]"])
  show "loop_cond cfg scenario_state1"
    using assms by (simp add: loop_cond_def scenario_state1_def)
  show "is_batch cfg scenario_state1 [page_A, page_B]"
    using scenario_distinct assms by (simp add: is_batch_def scenario_state1_def)
  show "is_completion_order [page_A, page_B] [page_A, page_B]"
    by (simp add: is_completion_order_def)
  show "round_step cfg scenario_world scenario_state1 [page_A, page_B] [page_A, page_B]
          = Inr scenario_state2"
    using scenario_distinct assms
    by (auto simp: round_step_def pp_A pp_B scenario_state1_def scenario_state2_def
        progress_check_def Let_def)
qed

lemma scenario_round1:
  "round scenario_config scenario_world (initial_state scenario_config) scenario_state1"
  by (rule scenario_round1_gen) (simp_all add: scenario_config_def CHECK_INTERVAL_def)

lemma scenario_reach1: "reachable scenario_config scenario_world scenario_state1"
  using reach_init scenario_round1 by (rule reach_round)

lemma module_round1:
  "round module_config scenario_world (initial_state module_config) scenario_state1"
  by (rule scenario_round1_gen)
     (simp_all add: module_config_def CHECK_INTERVAL_def MAX_PAGES_def CONCURRENT_WORKERS_def)

lemma module_round2: "round module_config scenario_world scenario_state1 scenario_state2"
  by (rule scenario_round2_gen)
     (simp_all add: module_config_def CHECK_INTERVAL_def MAX_PAGES_def CONCURRENT_WORKERS_def)

lemma module_reach1: "reachable module_config scenario_world scenario_state1"
  using reach_init module_round1 by (rule reach_round)

lemma module_reach2: "reachable module_config scenario_world scenario_state2"
  using module_reach1 module_round2 by (rule reach_round)

text \<open>
  With a cap of two pages and two workers the same two rounds are possible, and the
  loop condition is false after the second.
\<close>

lemma small_cap_reach2: "reachable small_cap_config scenario_world scenario_state2"
proof -
  have 1: "round small_cap_config scenario_world (initial_state small_cap_config) scenario_state1"
    by (rule scenario_round1_gen) (simp_all add: small_cap_config_def CHECK_INTERVAL_def)
  have 2: "round small_cap_config scenario_world scenario_state1 scenario_state2"
    by (rule scenario_round2_gen) (simp_all add: small_cap_config_def CHECK_INTERVAL_def)
  from reach_round[OF reach_round[OF reach_init 1] 2] show ?thesis .
qed

lemma scenario_state2_card: "card (visited scenario_state2) = 3"
  using scenario_distinct by (simp add: scenario_state2_def)

lemma small_cap_exit2: "crawl_exit small_cap_config scenario_world scenario_state2"
  using small_cap_reach2 scenario_state2_card
  by (simp add: crawl_exit_def loop_cond_def small_cap_config_def)

text \<open>A round adds at most one batch to \<open>visited\<close>.\<close>

lemma visited_bound:
  assumes "reachable cfg w s" and "0 < concurrent_workers cfg"
  shows "card (visited s) < max_pages cfg + concurrent_workers cfg"
  using assms(1)
proof (induction rule: reachable.induct)
  case reach_init
  from assms(2) show ?case by (simp add: initial_state_def)
next
  case (reach_round s s')
  from reach_round(2) show ?case
  proof (rule round_effect)
    fix current_batch rs
    assume e: "loop_cond cfg s" "is_batch cfg s current_batch"
      "visited s' = visited s \<union> set current_batch"
    from e(1) have lt: "card (visited s) < max_pages cfg" by (simp add: loop_cond_def)
    have "card (visited s') \<le> card (visited s) + card (set current_batch)"
      unfolding e(3) by (rule card_Un_le)
    also have "card (set current_batch) \<le> concurrent_workers cfg"
      using is_batch_length(1,2)[OF e(2)] by simp
    finally show ?thesis using lt by simp
  qed
qed

subsection \<open>Invariants of the loop\<close>

text \<open>
  C1 (the code departs from the claim). The claim: after every round \<open>to_visit\<close> and
  \<open>visited\<close> are disjoint and a visited URL never re-enters \<open>to_visit\<close>. In the
  scenario, with the module's own constants, A and B are fetched in one batch; A completes
  first and links to B, which at that moment is neither in \<open>visited\<close> nor in \<open>to_visit\<close>
  (it was taken out with the batch), so B is queued again. After the round B is both
  visited and queued, and the next batch dispatches B a second time.
\<close>

theorem frontier_visited_overlap:
  "reachable module_config scenario_world scenario_state2 \<and>
   to_visit scenario_state2 \<inter> visited scenario_state2 = {page_B} \<and>
   is_batch module_config scenario_state2 [page_B, page_C]"
proof -
  have "to_visit scenario_state2 \<inter> visited scenario_state2 = {page_B}"
    using scenario_distinct by (auto simp: scenario_state2_def)
  moreover have "is_batch module_config scenario_state2 [page_B, page_C]"
    using scenario_distinct
    by (simp add: is_batch_def module_config_def scenario_state2_def CONCURRENT_WORKERS_def)
  ultimately show ?thesis using module_reach2 by blast
qed

text \<open>
  C3, as stated, fails: the failed-URL record is a set of URLs and the failure message is
  dropped. Two fetch errors of one URL with different messages leave the same state.
\<close>

theorem failure_message_dropped:
  "''Timeout 7000ms exceeded.'' \<noteq> ''net::ERR_NAME_NOT_RESOLVED'' \<and>
   merge_result scenario_state1 (page_B, {}, Some ''Timeout 7000ms exceeded.'') =
   merge_result scenario_state1 (page_B, {}, Some ''net::ERR_NAME_NOT_RESOLVED'')"
  by simp

text \<open>
  C3, amended. \<open>failed_urls\<close> is a set of URLs, without reasons. Whenever the fetch of a
  URL of the batch raises an exception whose message is not empty, the round still
  completes (the crawl continues, every URL of the batch is marked visited) and that URL
  is in \<open>failed_urls\<close> afterwards; nothing recorded before is lost.
\<close>

theorem failed_url_recorded:
  assumes "0 < concurrent_workers cfg"
    and "u \<in> set completed"
    and "process_page_try w u = Inl e"
    and "str e \<noteq> []"
  shows "\<exists>s'. round_step cfg w s current_batch completed = Inr s' \<and>
              u \<in> failed_urls s' \<and> failed_urls s \<subseteq> failed_urls s' \<and>
              visited s' = visited s \<union> set completed"
proof -
  obtain rs where rs: "gather w completed = Inr rs" "map fst rs = completed"
    "\<forall>r \<in> set rs. process_page w (fst r) = Inr r"
    using gather_results by blast
  let ?s' = "progress_check cfg (foldl merge_result (s\<lparr>to_visit := to_visit s - set current_batch\<rparr>) rs)"
  from assms(1) rs(1) have step: "round_step cfg w s current_batch completed = Inr ?s'"
    by (simp add: round_step_def)
  from assms(2) rs(2) obtain r where r: "r \<in> set rs" "fst r = u"
    by (metis (no_types, lifting) image_iff set_map)
  with rs(3) have "process_page w u = Inr r" by auto
  with assms(3) have "r = (u, {}, Some (str e))"
    by (simp add: process_page_def)
  with r(1) assms(4) have "u \<in> {u. \<exists>l e. (u, l, e) \<in> set rs \<and> truthy e}"
    by force
  then have 1: "u \<in> failed_urls ?s'" and 2: "failed_urls s \<subseteq> failed_urls ?s'"
    by (simp_all add: progress_check_fields failed_foldl)
  have 3: "visited ?s' = visited s \<union> set completed"
    using rs(2) by (simp add: progress_check_fields visited_foldl flip: set_map)
  from step 1 2 3 show ?thesis by blast
qed

theorem failed_url_recorded_witness:
  "0 < concurrent_workers scenario_config \<and>
   page_B \<in> set [page_A, page_B] \<and>
   process_page_try scenario_world page_B =
     Inl (PlaywrightTimeoutError ''Timeout 7000ms exceeded.'') \<and>
   str (PlaywrightTimeoutError ''Timeout 7000ms exceeded.'') \<noteq> [] \<and>
   (\<exists>s'. round_step scenario_config scenario_world scenario_state1 [page_A, page_B]
            [page_A, page_B] = Inr s' \<and>
          page_B \<in> failed_urls s' \<and> failed_urls scenario_state1 \<subseteq> failed_urls s' \<and>
          visited s' = visited scenario_state1 \<union> set [page_A, page_B])"
proof -
  have 1: "0 < concurrent_workers scenario_config" by (simp add: scenario_config_def)
  have 2: "page_B \<in> set [page_A, page_B]" by simp
  have 4: "str (PlaywrightTimeoutError ''Timeout 7000ms exceeded.'') \<noteq> []" by simp
  from failed_url_recorded[OF 1 2 pp_try_B 4, of scenario_state1 "[page_A, page_B]"]
    1 2 pp_try_B 4
  show ?thesis by blast
qed

text \<open>
  C8. The size of \<open>all_links\<close> never decreases from one round to the next: a round
  removes no member of \<open>all_links\<close>.
\<close>

theorem all_links_monotone:
  assumes "reachable cfg w s" and "round cfg w s s'"
  shows "all_links s \<subseteq> all_links s' \<and> card (all_links s) \<le> card (all_links s')"
  using assms(2)
proof (rule round_effect)
  fix current_batch rs
  assume e: "all_links s \<subseteq> all_links s'" "finite (all_links s) \<Longrightarrow> finite (all_links s')"
  from reachable_finite[OF assms(1)] have "finite (all_links s)" by simp
  with e(2) have "finite (all_links s')" .
  with e(1) show ?thesis by (simp add: card_mono)
qed

text \<open>
  The second round of the scenario with the module's constants: it starts with
  \<open>all_links = {A, B}\<close> and ends with \<open>all_links = {A, B, C}\<close>.
\<close>

theorem all_links_monotone_witness:
  "reachable module_config scenario_world scenario_state1 \<and>
   round module_config scenario_world scenario_state1 scenario_state2 \<and>
   all_links scenario_state1 = {page_A, page_B} \<and>
   all_links scenario_state2 = {page_A, page_B, page_C} \<and>
   all_links scenario_state1 \<subseteq> all_links scenario_state2 \<and>
   card (all_links scenario_state1) \<le> card (all_links scenario_state2)"
proof -
  note mono = all_links_monotone[OF module_reach1 module_round2]
  have a: "all_links scenario_state1 = {page_A, page_B}"
    by (simp add: scenario_state1_def)
  have b: "all_links scenario_state2 = {page_A, page_B, page_C}"
    by (simp add: scenario_state2_def)
  from mono have m1: "all_links scenario_state1 \<subseteq> all_links scenario_state2"
    and m2: "card (all_links scenario_state1) \<le> card (all_links scenario_state2)"
    by (rule conjunct1, rule conjunct2)
  from module_reach1 module_round2 a b m1 m2 show ?thesis
    by (intro conjI)
qed

text \<open>
  C9. After every round \<open>failed_urls\<close> is a subset of \<open>visited\<close>: a URL is added to
  \<open>visited\<close> before it is recorded as failed.
\<close>

theorem failed_subset_visited:
  "reachable cfg w s \<Longrightarrow> failed_urls s \<subseteq> visited s"
proof (induction rule: reachable.induct)
  case reach_init
  show ?case by (simp add: initial_state_def)
next
  case (reach_round s s')
  from reach_round(2) show ?case
  proof (rule round_effect)
    fix current_batch rs
    assume e: "fst ` set rs = set current_batch"
      "visited s' = visited s \<union> set current_batch"
      "failed_urls s' = failed_urls s \<union> {u. \<exists>l e. (u, l, e) \<in> set rs \<and> truthy e}"
    have "{u. \<exists>l e. (u, l, e) \<in> set rs \<and> truthy e} \<subseteq> fst ` set rs" by force
    then have "{u. \<exists>l e. (u, l, e) \<in> set rs \<and> truthy e} \<subseteq> set current_batch"
      unfolding e(1) .
    then have "failed_urls s' \<subseteq> failed_urls s \<union> set current_batch"
      unfolding e(3) by blast
    with reach_round(3) show ?thesis unfolding e(2) by blast
  qed
qed

text \<open>
  After two rounds of the scenario with the module's constants the fetch of B has failed:
  \<open>failed_urls = {B}\<close> and \<open>visited = {S, A, B}\<close>.
\<close>

theorem failed_subset_visited_witness:
  "reachable module_config scenario_world scenario_state2 \<and>
   failed_urls scenario_state2 = {page_B} \<and>
   visited scenario_state2 = {START_URL, page_A, page_B} \<and>
   failed_urls scenario_state2 \<subseteq> visited scenario_state2"
proof -
  note sub = failed_subset_visited[OF module_reach2]
  have a: "failed_urls scenario_state2 = {page_B}"
    by (simp add: scenario_state2_def)
  have b: "visited scenario_state2 = {START_URL, page_A, page_B}"
    by (simp add: scenario_state2_def)
  from module_reach2 a b sub show ?thesis
    by (intro conjI)
qed

text \<open>
  C10. When the loop exits (and in every state at the head of the loop), the size of
  \<open>visited\<close> is strictly less than the page cap plus the worker count: a round is
  entered only below the cap and adds at most one batch.
\<close>

theorem visited_below_cap_plus_batch:
  assumes "reachable cfg w s" and "0 < concurrent_workers cfg"
  shows "card (visited s) < max_pages cfg + concurrent_workers cfg"
  using assms by (rule visited_bound)

text \<open>
  An exit of the loop above the cap: with a cap of two pages and two workers the loop
  exits after two rounds of the scenario with three visited pages, fewer than four.
\<close>

theorem visited_below_cap_plus_batch_witness:
  "crawl_exit small_cap_config scenario_world scenario_state2 \<and>
   reachable small_cap_config scenario_world scenario_state2 \<and>
   \<not> loop_cond small_cap_config scenario_state2 \<and>
   0 < concurrent_workers small_cap_config \<and>
   max_pages small_cap_config = 2 \<and> concurrent_workers small_cap_config = 2 \<and>
   card (visited scenario_state2) = 3 \<and>
   card (visited scenario_state2) <
     max_pages small_cap_config + concurrent_workers small_cap_config"
proof -
  have w: "0 < concurrent_workers small_cap_config" by (simp add: small_cap_config_def)
  note bound = visited_below_cap_plus_batch[OF small_cap_reach2 w]
  have c: "max_pages small_cap_config = 2" "concurrent_workers small_cap_config = 2"
    by (simp_all add: small_cap_config_def)
  from small_cap_exit2 have l: "\<not> loop_cond small_cap_config scenario_state2"
    by (simp add: crawl_exit_def)
  from small_cap_exit2 small_cap_reach2 l w c scenario_state2_card bound show ?thesis
    by (intro conjI)
qed

text \<open>
  C2, as stated, fails: the cap is tested once per round and a whole batch is fetched
  after the test. With a cap of two pages and two workers the scenario leaves the loop
  with three visited pages while \<open>to_visit\<close> is not empty.
\<close>

theorem cap_overshoot:
  "crawl_exit small_cap_config scenario_world scenario_state2 \<and>
   to_visit scenario_state2 \<noteq> {} \<and>
   max_pages small_cap_config = 2 \<and> card (visited scenario_state2) = 3"
proof -
  have 1: "round small_cap_config scenario_world (initial_state small_cap_config) scenario_state1"
    by (rule scenario_round1_gen) (simp_all add: small_cap_config_def CHECK_INTERVAL_def)
  have 2: "round small_cap_config scenario_world scenario_state1 scenario_state2"
    by (rule scenario_round2_gen) (simp_all add: small_cap_config_def CHECK_INTERVAL_def)
  have r: "reachable small_cap_config scenario_world scenario_state2"
    using reach_round[OF reach_round[OF reach_init 1] 2] .
  have c: "card (visited scenario_state2) = 3"
    using scenario_distinct by (simp add: scenario_state2_def)
  then have "\<not> loop_cond small_cap_config scenario_state2"
    by (simp add: loop_cond_def small_cap_config_def)
  with r c show ?thesis
    by (simp add: crawl_exit_def small_cap_config_def scenario_state2_def)
qed

text \<open>
  C2, amended. With at least one worker every run of the loop is finite and is never
  stuck, so the crawl terminates; when it terminates by the page cap (the loop exits while
  \<open>to_visit\<close> is not empty), \<open>visited\<close> has at least \<open>max_pages\<close> elements and fewer than
  \<open>max_pages + concurrent_workers\<close>.
\<close>

theorem cap_exit_bounds:
  assumes "0 < concurrent_workers cfg"
  shows "wf {(s', s). reachable cfg w s \<and> round cfg w s s'} \<and>
         (\<forall>s. reachable cfg w s \<and> loop_cond cfg s \<longrightarrow> (\<exists>s'. round cfg w s s')) \<and>
         (\<exists>s. crawl_exit cfg w s) \<and>
         (\<forall>s. crawl_exit cfg w s \<and> to_visit s \<noteq> {} \<longrightarrow>
              max_pages cfg \<le> card (visited s) \<and>
              card (visited s) < max_pages cfg + concurrent_workers cfg)"
proof (intro conjI allI impI)
  show "wf {(s', s). reachable cfg w s \<and> round cfg w s s'}" by (rule crawl_wf)
  show "\<exists>s. crawl_exit cfg w s" using assms by (rule crawl_exit_exists)
next
  fix s assume a: "reachable cfg w s \<and> loop_cond cfg s"
  then have "finite (to_visit s)" using reachable_finite by blast
  with a assms show "\<exists>s'. round cfg w s s'" using round_possible by blast
next
  fix s assume a: "crawl_exit cfg w s \<and> to_visit s \<noteq> {}"
  then show "max_pages cfg \<le> card (visited s)"
    by (auto simp: crawl_exit_def loop_cond_def)
  from a have "reachable cfg w s" by (simp add: crawl_exit_def)
  then show "card (visited s) < max_pages cfg + concurrent_workers cfg"
    using assms by (rule visited_bound)
qed

theorem cap_exit_bounds_witness:
  "0 < concurrent_workers small_cap_config \<and>
   reachable small_cap_config scenario_world scenario_state2 \<and>
   \<not> loop_cond small_cap_config scenario_state2 \<and>
   to_visit scenario_state2 \<noteq> {} \<and>
   max_pages small_cap_config \<le> card (visited scenario_state2) \<and>
   card (visited scenario_state2) <
     max_pages small_cap_config + concurrent_workers small_cap_config"
proof -
  have w: "0 < concurrent_workers small_cap_config" by (simp add: small_cap_config_def)
  have 1: "round small_cap_config scenario_world (initial_state small_cap_config) scenario_state1"
    by (rule scenario_round1_gen) (simp_all add: small_cap_config_def CHECK_INTERVAL_def)
  have 2: "round small_cap_config scenario_world scenario_state1 scenario_state2"
    by (rule scenario_round2_gen) (simp_all add: small_cap_config_def CHECK_INTERVAL_def)
  have r: "reachable small_cap_config scenario_world scenario_state2"
    using reach_round[OF reach_round[OF reach_init 1] 2] .
  have "card (visited scenario_state2) = 3"
    using scenario_distinct by (simp add: scenario_state2_def)
  then have l: "\<not> loop_cond small_cap_config scenario_state2"
    by (simp add: loop_cond_def small_cap_config_def)
  have n: "to_visit scenario_state2 \<noteq> {}" by (simp add: scenario_state2_def)
  from r l have e: "crawl_exit small_cap_config scenario_world scenario_state2"
    by (simp add: crawl_exit_def)
  from cap_exit_bounds[OF w, of scenario_world] e n
  have "max_pages small_cap_config \<le> card (visited scenario_state2) \<and>
        card (visited scenario_state2) <
          max_pages small_cap_config + concurrent_workers small_cap_config"
    by blast
  with w r l n show ?thesis by blast
qed

subsection \<open>The scenario of the specification\<close>

lemma round_results:
  assumes "round cfg w s s'"
  obtains current_batch rs where
    "loop_cond cfg s" "is_batch cfg s current_batch"
    "distinct (map fst rs)" "fst ` set rs = set current_batch"
    "\<forall>r \<in> set rs. process_page w (fst r) = Inr r"
    "s' = progress_check cfg (foldl merge_result (s\<lparr>to_visit := to_visit s - set current_batch\<rparr>) rs)"
  using assms
proof cases
  case (roundI current_batch completed)
  obtain rs where rs: "gather w completed = Inr rs" "map fst rs = completed"
    "\<forall>r \<in> set rs. process_page w (fst r) = Inr r"
    using gather_results by blast
  from roundI(3) have m: "mset completed = mset current_batch"
    by (simp add: is_completion_order_def)
  then have "set completed = set current_batch" by (rule mset_eq_setD)
  with rs(2) have 1: "fst ` set rs = set current_batch" by (metis set_map)
  from roundI(2) have "distinct current_batch" by (simp add: is_batch_def)
  with m have "distinct completed" using mset_eq_imp_distinct_iff by blast
  with rs(2) have 2: "distinct (map fst rs)" by simp
  from roundI(4) rs(1)
  have 3: "s' = progress_check cfg (foldl merge_result (s\<lparr>to_visit := to_visit s - set current_batch\<rparr>) rs)"
    by (auto simp: round_step_def Let_def split: if_splits)
  show ?thesis using that[OF roundI(1,2) 2 1 rs(3) 3] .
qed

lemma results_single:
  assumes "distinct (map f rs)" "f ` set rs = {x}"
  shows "\<exists>r. rs = [r] \<and> f r = x"
proof -
  from assms(1) have "card (set (map f rs)) = length rs"
    using distinct_card by fastforce
  with assms(2) have "length rs = 1" by simp
  then obtain r where "rs = [r]" by (cases rs) auto
  with assms(2) show ?thesis by auto
qed

lemma results_pair:
  assumes "distinct (map f rs)" "f ` set rs = {x, y}" "x \<noteq> y"
  shows "\<exists>r1 r2. rs = [r1, r2] \<and> ((f r1 = x \<and> f r2 = y) \<or> (f r1 = y \<and> f r2 = x))"
proof -
  from assms(1) have "card (set (map f rs)) = length rs"
    using distinct_card by fastforce
  with assms(2,3) have "length rs = 2" by simp
  then obtain r1 r2 where rs: "rs = [r1, r2]"
    by (cases rs; cases "tl rs") auto
  with assms(2,3) have "(f r1 = x \<and> f r2 = y) \<or> (f r1 = y \<and> f r2 = x)"
    by (auto simp: doubleton_eq_iff)
  with rs show ?thesis by blast
qed

lemma batch_is_frontier:
  assumes "is_batch cfg s current_batch" "finite (to_visit s)"
    "card (to_visit s) \<le> concurrent_workers cfg"
  shows "set current_batch = to_visit s"
proof -
  from assms(1) have d: "distinct current_batch" and sub: "set current_batch \<subseteq> to_visit s"
    and len: "length current_batch = min (concurrent_workers cfg) (card (to_visit s))"
    by (simp_all add: is_batch_def)
  from d len assms(3) have "card (set current_batch) = card (to_visit s)"
    by (simp add: distinct_card)
  with sub assms(2) show ?thesis by (simp add: card_subset_eq)
qed

lemmas merge_fields = visited_merge to_visit_merge all_links_merge failed_merge

lemma scenario_step:
  assumes d: "distinct [S, A, B, C]"
    and cfg: "concurrent_workers cfg = 2"
    and pS: "process_page w S = Inr (S, {A, B}, None)"
    and pA: "process_page w A = Inr (A, {B, C}, None)"
    and pB: "process_page w B = Inr (B, {}, Some e)" and e: "e \<noteq> []"
    and pC: "process_page w C = Inr (C, {}, None)"
    and P: "scenario_inv S A B C s"
    and r: "round cfg w s s'"
  shows "scenario_inv S A B C s'"
  using r
proof (rule round_results)
  fix current_batch rs
  assume lc: "loop_cond cfg s" and b: "is_batch cfg s current_batch"
    and dist: "distinct (map fst rs)" and im: "fst ` set rs = set current_batch"
    and pp: "\<forall>r \<in> set rs. process_page w (fst r) = Inr r"
    and s': "s' = progress_check cfg (foldl merge_result (s\<lparr>to_visit := to_visit s - set current_batch\<rparr>) rs)"
  from P have fin: "finite (to_visit s)" and c2: "card (to_visit s) \<le> concurrent_workers cfg"
    using d by (auto simp: scenario_inv_def cfg card_insert_if)
  from b fin c2 have bt: "set current_batch = to_visit s" by (rule batch_is_frontier)
  with im have im': "fst ` set rs = to_visit s" by simp
  from lc have ne: "to_visit s \<noteq> {}" by (simp add: loop_cond_def)
  have single: "rs = [r]" if "to_visit s = {x}" "process_page w x = Inr r" for x r
  proof -
    from results_single[OF dist] im' that(1) obtain r' where r': "rs = [r']" "fst r' = x" by auto
    with pp that(2) show ?thesis by auto
  qed
  have pair: "rs = [r1, r2] \<or> rs = [r2, r1]"
    if "to_visit s = {x, y}" "x \<noteq> y" "process_page w x = Inr r1" "process_page w y = Inr r2"
    for x y r1 r2
  proof -
    from results_pair[OF dist _ that(2)] im' that(1)
    obtain q1 q2 where q: "rs = [q1, q2]" "(fst q1 = x \<and> fst q2 = y) \<or> (fst q1 = y \<and> fst q2 = x)"
      by metis
    with pp that(3,4) show ?thesis by auto
  qed
  from P consider
      (1) "to_visit s = {S}" "visited s = {}" "all_links s = {}" "failed_urls s = {}"
    | (2) "to_visit s = {A, B}" "visited s = {S}" "all_links s = {A, B}" "failed_urls s = {}"
    | (3) "to_visit s = {C}" "visited s = {S, A, B}" "all_links s = {A, B, C}" "failed_urls s = {B}"
    | (4) "to_visit s = {B, C}" "visited s = {S, A, B}" "all_links s = {A, B, C}" "failed_urls s = {B}"
    | (5) "to_visit s = {}"
    by (auto simp: scenario_inv_def)
  then show ?thesis
  proof cases
    case 1
    from single[OF 1(1) pS] have rs: "rs = [(S, {A, B}, None)]" .
    show ?thesis using d 1 bt
      unfolding scenario_inv_def s' rs
      by (auto simp: progress_check_fields merge_fields simp del: merge_result.simps)
  next
    case 2
    from d have "A \<noteq> B" by simp
    from pair[OF 2(1) this pA pB]
    have rs: "rs = [(A, {B, C}, None), (B, {}, Some e)] \<or> rs = [(B, {}, Some e), (A, {B, C}, None)]" .
    then show ?thesis
    proof
      assume rs: "rs = [(A, {B, C}, None), (B, {}, Some e)]"
      show ?thesis using d 2 bt e
        unfolding scenario_inv_def s' rs
        by (auto simp: progress_check_fields merge_fields simp del: merge_result.simps)
    next
      assume rs: "rs = [(B, {}, Some e), (A, {B, C}, None)]"
      show ?thesis using d 2 bt e
        unfolding scenario_inv_def s' rs
        by (auto simp: progress_check_fields merge_fields simp del: merge_result.simps)
    qed
  next
    case 3
    from single[OF 3(1) pC] have rs: "rs = [(C, {}, None)]" .
    show ?thesis using d 3 bt
      unfolding scenario_inv_def s' rs
      by (auto simp: progress_check_fields merge_fields simp del: merge_result.simps)
  next
    case 4
    from d have "B \<noteq> C" by simp
    from pair[OF 4(1) this pB pC]
    have rs: "rs = [(B, {}, Some e), (C, {}, None)] \<or> rs = [(C, {}, None), (B, {}, Some e)]" .
    then show ?thesis
    proof
      assume rs: "rs = [(B, {}, Some e), (C, {}, None)]"
      show ?thesis using d 4 bt e
        unfolding scenario_inv_def s' rs
        by (auto simp: progress_check_fields merge_fields simp del: merge_result.simps)
    next
      assume rs: "rs = [(C, {}, None), (B, {}, Some e)]"
      show ?thesis using d 4 bt e
        unfolding scenario_inv_def s' rs
        by (auto simp: progress_check_fields merge_fields simp del: merge_result.simps)
    qed
  next
    case 5
    with ne show ?thesis by simp
  qed
qed

lemma scenario_reachable_inv:
  assumes "distinct [S, A, B, C]"
    and "start_url cfg = S" and "concurrent_workers cfg = 2"
    and "process_page w S = Inr (S, {A, B}, None)"
    and "process_page w A = Inr (A, {B, C}, None)"
    and "process_page w B = Inr (B, {}, Some e)" and "e \<noteq> []"
    and "process_page w C = Inr (C, {}, None)"
    and "reachable cfg w s"
  shows "scenario_inv S A B C s"
  using assms(9)
proof (induction rule: reachable.induct)
  case reach_init
  show ?case using assms(2) by (simp add: scenario_inv_def initial_state_def)
next
  case (reach_round s s')
  from assms(1,3-8) reach_round(3,2) show ?case by (rule scenario_step)
qed

text \<open>
  Seed S, two workers, a cap of 100 pages; S yields the links A and B, A yields B and C,
  the fetch of B raises an exception whose message \<open>e\<close> is not empty, and C yields no
  link. Every run terminates, and whatever the order of each batch and the completion
  order of its results, the loop exits with \<open>visited = {S, A, B, C}\<close>,
  \<open>failed_urls = {B}\<close>, \<open>all_links = {A, B, C}\<close> and an empty \<open>to_visit\<close>: it ends
  because the frontier drained.
\<close>

lemma scenario_outcome:
  assumes "distinct [S, A, B, C]"
    and "start_url cfg = S" and "max_pages cfg = 100" and "concurrent_workers cfg = 2"
    and "process_page w S = Inr (S, {A, B}, None)"
    and "process_page w A = Inr (A, {B, C}, None)"
    and "process_page w B = Inr (B, {}, Some e)" and "e \<noteq> []"
    and "process_page w C = Inr (C, {}, None)"
  shows "wf {(s', s). reachable cfg w s \<and> round cfg w s s'} \<and>
         (\<exists>s. crawl_exit cfg w s) \<and>
         (\<forall>s. crawl_exit cfg w s \<longrightarrow>
              visited s = {S, A, B, C} \<and> failed_urls s = {B} \<and>
              all_links s = {A, B, C} \<and> to_visit s = {})"
proof (intro conjI allI impI)
  show "wf {(s', s). reachable cfg w s \<and> round cfg w s s'}" by (rule crawl_wf)
  show "\<exists>s. crawl_exit cfg w s" using assms(4) by (intro crawl_exit_exists) simp
next
  fix s assume ex: "crawl_exit cfg w s"
  then have r: "reachable cfg w s" and nl: "\<not> loop_cond cfg s"
    by (simp_all add: crawl_exit_def)
  from assms(1,2,4-9) r have inv: "scenario_inv S A B C s" by (rule scenario_reachable_inv)
  from inv have "visited s \<subseteq> set [S, A, B, C]"
    unfolding scenario_inv_def by auto
  then have "card (visited s) \<le> card (set [S, A, B, C])"
    by (intro card_mono) simp_all
  also have "\<dots> \<le> length [S, A, B, C]" by (rule card_length)
  finally have "card (visited s) \<le> 4" by simp
  with nl assms(3) have empty: "to_visit s = {}" by (simp add: loop_cond_def)
  with inv have "visited s = {S, A, B, C} \<and> failed_urls s = {B} \<and> all_links s = {A, B, C}"
    unfolding scenario_inv_def by simp
  with empty show "visited s = {S, A, B, C}" "failed_urls s = {B}"
    "all_links s = {A, B, C}" "to_visit s = {}" by simp_all
qed

text \<open>The scenario with the time-out message of Playwright is an instance.\<close>

lemma scenario_outcome_example:
  "distinct [START_URL, page_A, page_B, page_C] \<and>
   start_url scenario_config = START_URL \<and> max_pages scenario_config = 100 \<and>
   concurrent_workers scenario_config = 2 \<and>
   process_page scenario_world START_URL = Inr (START_URL, {page_A, page_B}, None) \<and>
   process_page scenario_world page_A = Inr (page_A, {page_B, page_C}, None) \<and>
   process_page scenario_world page_B = Inr (page_B, {}, Some ''Timeout 7000ms exceeded.'') \<and>
   ''Timeout 7000ms exceeded.'' \<noteq> [] \<and>
   process_page scenario_world page_C = Inr (page_C, {}, None) \<and>
   (\<exists>s. crawl_exit scenario_config scenario_world s \<and>
        visited s = {START_URL, page_A, page_B, page_C} \<and> failed_urls s = {page_B} \<and>
        all_links s = {page_A, page_B, page_C} \<and> to_visit s = {})"
proof -
  have d: "distinct [START_URL, page_A, page_B, page_C]"
    using scenario_distinct by simp
  have c: "start_url scenario_config = START_URL" "max_pages scenario_config = 100"
    "concurrent_workers scenario_config = 2"
    by (simp_all add: scenario_config_def)
  have e: "''Timeout 7000ms exceeded.'' \<noteq> []" by simp
  note outcome = scenario_outcome[OF d c pp_S pp_A pp_B e pp_C]
  from outcome obtain s where s: "crawl_exit scenario_config scenario_world s" by blast
  from outcome s have f: "visited s = {START_URL, page_A, page_B, page_C}"
    "failed_urls s = {page_B}" "all_links s = {page_A, page_B, page_C}" "to_visit s = {}"
    by blast+
  from s f have "\<exists>s. crawl_exit scenario_config scenario_world s \<and>
        visited s = {START_URL, page_A, page_B, page_C} \<and> failed_urls s = {page_B} \<and>
        all_links s = {page_A, page_B, page_C} \<and> to_visit s = {}"
    by (intro exI[of _ s] conjI)
  then show ?thesis
    using d c pp_S pp_A pp_B e pp_C by (intro conjI) assumption+
qed

subsection \<open>A failure without a message\<close>

text \<open>
  The message an exception carries can be empty (\<^verbatim>\<open>str(Exception())\<close> is the empty
  string). A message that \<^verbatim>\<open>process_page\<close> returns comes from the browser or from
  \<^verbatim>\<open>urlparse\<close>.
\<close>

lemma is_valid_link_raises:
  "is_valid_link up href = Inl e \<Longrightarrow> up (lower (strip href)) = Inl e"
  by (simp add: is_valid_link_def Let_def split: if_splits sum.splits)

lemma collect_links_raises:
  "collect_links up hrefs acc = Inl e \<Longrightarrow> \<exists>href. up href = Inl e"
proof (induction hrefs arbitrary: acc)
  case Nil
  then show ?case by simp
next
  case (Cons h hrefs)
  show ?case
  proof (cases "is_valid_link up h")
    case (Inl e')
    with Cons.prems have "e' = e" by simp
    with Inl have "up (lower (strip h)) = Inl e" by (simp add: is_valid_link_raises)
    then show ?thesis by blast
  next
    case (Inr ok)
    with Cons.prems have
      "collect_links up hrefs (if ok then insert (before_hash h) acc else acc) = Inl e"
      by simp
    then show ?thesis by (rule Cons.IH)
  qed
qed

lemma process_page_error_source:
  assumes "process_page w u = Inr (u', l, Some m)"
  shows "(\<exists>e. render w u = Inl e \<and> m = str e) \<or> (\<exists>href e. urlparse w href = Inl e \<and> m = str e)"
proof (cases "render w u")
  case (Inl e)
  with assms have "m = str e" by (simp add: process_page_def process_page_try_def)
  with Inl show ?thesis by blast
next
  case (Inr hrefs)
  show ?thesis
  proof (cases "collect_links (urlparse w) hrefs {}")
    case (Inl e)
    with Inr assms have m: "m = str e" by (simp add: process_page_def process_page_try_def)
    from Inl obtain href where "urlparse w href = Inl e" using collect_links_raises by blast
    with m show ?thesis by blast
  next
    case (Inr links)
    with \<open>render w u = Inr hrefs\<close> assms show ?thesis
      by (simp add: process_page_def process_page_try_def)
  qed
qed

lemma silent_pp_S:
  "process_page silent_world START_URL = Inr (START_URL, {page_A, page_B}, None)"
  by code_simp

lemma silent_pp_A: "process_page silent_world page_A = Inr (page_A, {page_B, page_C}, None)"
  by code_simp

lemma silent_pp_B: "process_page silent_world page_B = Inr (page_B, {}, Some [])"
  by code_simp

lemma silent_pp_C: "process_page silent_world page_C = Inr (page_C, {}, None)"
  by code_simp

lemma silent_pp_try_B:
  "process_page_try silent_world page_B = Inl (PlaywrightTimeoutError [])"
  by code_simp

lemma silent_round1:
  "round scenario_config silent_world (initial_state scenario_config) scenario_state1"
proof (rule roundI[where current_batch = "[START_URL]" and completed = "[START_URL]"])
  show "loop_cond scenario_config (initial_state scenario_config)"
    by (simp add: loop_cond_def initial_state_def scenario_config_def)
  show "is_batch scenario_config (initial_state scenario_config) [START_URL]"
    by (simp add: is_batch_def initial_state_def scenario_config_def)
  show "is_completion_order [START_URL] [START_URL]"
    by (simp add: is_completion_order_def)
  show "round_step scenario_config silent_world (initial_state scenario_config)
          [START_URL] [START_URL] = Inr scenario_state1"
    using scenario_distinct
    by (auto simp: round_step_def silent_pp_S initial_state_def scenario_state1_def
        scenario_config_def CHECK_INTERVAL_def progress_check_def Let_def)
qed

lemma silent_round2: "round scenario_config silent_world scenario_state1 silent_state2"
proof (rule roundI[where current_batch = "[page_A, page_B]" and completed = "[page_B, page_A]"])
  show "loop_cond scenario_config scenario_state1"
    by (simp add: loop_cond_def scenario_state1_def scenario_config_def)
  show "is_batch scenario_config scenario_state1 [page_A, page_B]"
    using scenario_distinct by (simp add: is_batch_def scenario_state1_def scenario_config_def)
  show "is_completion_order [page_A, page_B] [page_B, page_A]"
    by (simp add: is_completion_order_def)
  show "round_step scenario_config silent_world scenario_state1 [page_A, page_B]
          [page_B, page_A] = Inr silent_state2"
    using scenario_distinct
    by (auto simp: round_step_def silent_pp_A silent_pp_B scenario_state1_def silent_state2_def
        scenario_config_def CHECK_INTERVAL_def progress_check_def Let_def)
qed

lemma silent_round3: "round scenario_config silent_world silent_state2 silent_final"
proof (rule roundI[where current_batch = "[page_C]" and completed = "[page_C]"])
  have "card (visited silent_state2) = 3"
    using scenario_distinct by (simp add: silent_state2_def)
  then show "loop_cond scenario_config silent_state2"
    by (simp add: loop_cond_def scenario_config_def) (simp add: silent_state2_def)
  show "is_batch scenario_config silent_state2 [page_C]"
    by (simp add: is_batch_def silent_state2_def scenario_config_def)
  show "is_completion_order [page_C] [page_C]"
    by (simp add: is_completion_order_def)
  show "round_step scenario_config silent_world silent_state2 [page_C] [page_C]
          = Inr silent_final"
    using scenario_distinct
    by (auto simp: round_step_def silent_pp_C silent_state2_def silent_final_def
        scenario_config_def CHECK_INTERVAL_def progress_check_def Let_def)
qed

lemma silent_exit: "crawl_exit scenario_config silent_world silent_final"
proof -
  have "reachable scenario_config silent_world silent_final"
    using reach_round[OF reach_round[OF reach_round[OF reach_init silent_round1]
      silent_round2] silent_round3] .
  moreover have "\<not> loop_cond scenario_config silent_final"
    by (simp add: loop_cond_def silent_final_def)
  ultimately show ?thesis by (simp add: crawl_exit_def)
qed


text \<open>
  In this world no result carries a message that is true, so no run records a failure.
\<close>

lemma silent_no_message:
  assumes "process_page silent_world u = Inr (u', l, e)"
  shows "\<not> truthy e"
proof (cases e)
  case None
  then show ?thesis by simp
next
  case (Some m)
  with assms have
    "(\<exists>e. render silent_world u = Inl e \<and> m = str e) \<or>
     (\<exists>href e. urlparse silent_world href = Inl e \<and> m = str e)"
    by (intro process_page_error_source) simp
  moreover have "str x = []" if "render silent_world u = Inl x" for x
    using that by (auto simp: silent_world_def silent_render_def split: if_splits)
  moreover have "urlparse silent_world href \<noteq> Inl x" for href x
    by (simp add: silent_world_def demo_urlparse_def)
  ultimately have "m = []" by auto
  with Some show ?thesis by simp
qed

lemma silent_never_failed:
  "reachable cfg silent_world s \<Longrightarrow> failed_urls s = {}"
proof (induction rule: reachable.induct)
  case reach_init
  show ?case by (simp add: initial_state_def)
next
  case (reach_round s s')
  from reach_round(2) show ?case
  proof (rule round_effect)
    fix current_batch rs
    assume e: "\<forall>r \<in> set rs. process_page silent_world (fst r) = Inr r"
      "failed_urls s' = failed_urls s \<union> {u. \<exists>l e. (u, l, e) \<in> set rs \<and> truthy e}"
    have "\<not> truthy e'" if "(u, l, e') \<in> set rs" for u l e'
    proof -
      from e(1) that have "process_page silent_world u = Inr (u, l, e')" by force
      then show ?thesis by (rule silent_no_message)
    qed
    then have "{u. \<exists>l e. (u, l, e) \<in> set rs \<and> truthy e} = {}" by blast
    with e(2) reach_round(3) show ?thesis by simp
  qed
qed

text \<open>
  C5 (the code departs from the claim). The claim: with seed S, two workers and a cap of
  100 pages, where S yields the links A and B, A yields B and C, the fetch of B errors
  and C yields no link, the crawl ends with \<open>visited = {S, A, B, C}\<close>,
  \<open>failed_urls = {B}\<close>, \<open>all_links = {A, B, C}\<close> and a drained frontier, for every
  completion order. Take a fetch of B that raises an exception whose message is empty.
  Line 90, \<^verbatim>\<open>if error:\<close>, tests the message for truth and the empty string is false,
  so the result of B is merged as a success with no links. The run in which B completes before
  A exits with \<open>visited = {S, A, B, C}\<close>, \<open>all_links = {A, B, C}\<close>, an empty \<open>to_visit\<close>
  and \<open>failed_urls = {}\<close>, not \<open>{B}\<close>; and no run of this world exits with
  \<open>failed_urls = {B}\<close>, whatever the completion orders.
\<close>

theorem empty_message_failure_unrecorded:
  "start_url scenario_config = START_URL \<and> max_pages scenario_config = 100 \<and>
   concurrent_workers scenario_config = 2 \<and>
   process_page silent_world START_URL = Inr (START_URL, {page_A, page_B}, None) \<and>
   process_page silent_world page_A = Inr (page_A, {page_B, page_C}, None) \<and>
   process_page_try silent_world page_B = Inl (PlaywrightTimeoutError []) \<and>
   process_page silent_world page_B = Inr (page_B, {}, Some []) \<and>
   process_page silent_world page_C = Inr (page_C, {}, None) \<and>
   crawl_exit scenario_config silent_world silent_final \<and>
   to_visit silent_final = {} \<and>
   visited silent_final = {START_URL, page_A, page_B, page_C} \<and>
   all_links silent_final = {page_A, page_B, page_C} \<and>
   failed_urls silent_final = {} \<and>
   \<not> (\<exists>s. crawl_exit scenario_config silent_world s \<and> failed_urls s = {page_B})"
proof -
  have c: "start_url scenario_config = START_URL" "max_pages scenario_config = 100"
    "concurrent_workers scenario_config = 2"
    by (simp_all add: scenario_config_def)
  have f: "to_visit silent_final = {}"
    "visited silent_final = {START_URL, page_A, page_B, page_C}"
    "all_links silent_final = {page_A, page_B, page_C}"
    "failed_urls silent_final = {}"
    by (simp_all add: silent_final_def)
  have g: "\<not> (\<exists>s. crawl_exit scenario_config silent_world s \<and> failed_urls s = {page_B})"
  proof
    assume "\<exists>s. crawl_exit scenario_config silent_world s \<and> failed_urls s = {page_B}"
    then obtain s where s: "reachable scenario_config silent_world s" "failed_urls s = {page_B}"
      by (auto simp: crawl_exit_def)
    from s(1) have "failed_urls s = {}" by (rule silent_never_failed)
    with s(2) show False by simp
  qed
  from c silent_pp_S silent_pp_A silent_pp_try_B silent_pp_B silent_pp_C silent_exit f g
  show ?thesis by (intro conjI)
qed


subsection \<open>What \<open>all_links\<close> holds\<close>

text \<open>
  When the fetch and the filter raise nothing, the links \<^verbatim>\<open>process_page\<close> returns are
  the accepted hrefs, each cut at its first \<^verbatim>\<open>#\<close>.
\<close>

lemma collect_links_accepts:
  "collect_links up hrefs acc = Inr links \<Longrightarrow>
   links = acc \<union> {before_hash h |h. h \<in> set hrefs \<and> is_valid_link up h = Inr True}"
proof (induction hrefs arbitrary: acc)
  case Nil
  then show ?case by simp
next
  case (Cons h hrefs)
  show ?case
  proof (cases "is_valid_link up h")
    case (Inl e)
    with Cons.prems show ?thesis by simp
  next
    case (Inr ok)
    with Cons.prems have
      "collect_links up hrefs (if ok then insert (before_hash h) acc else acc) = Inr links"
      by simp
    from Cons.IH[OF this] Inr show ?thesis by (cases ok) auto
  qed
qed

lemma process_page_links:
  assumes "process_page w u = Inr (u', links, None)" and "render w u = Inr hrefs"
  shows "links = {before_hash h |h. h \<in> set hrefs \<and> is_valid_link (urlparse w) h = Inr True}"
proof (cases "collect_links (urlparse w) hrefs {}")
  case (Inl e)
  with assms show ?thesis by (simp add: process_page_def process_page_try_def)
next
  case (Inr valid_links)
  with assms have "links = valid_links" by (simp add: process_page_def process_page_try_def)
  with collect_links_accepts[OF Inr] show ?thesis by simp
qed

text \<open>
  The seed is marked visited before the links of its own page are filtered, and is in
  \<open>visited\<close> ever after, so line 93 never lets it into \<open>all_links\<close>. Every other URL
  enters \<open>to_visit\<close> and \<open>all_links\<close> together.
\<close>

lemma seed_not_added_foldl:
  assumes "seed \<notin> all_links s" and "seed \<in> visited s \<or> (\<forall>r \<in> set rs. fst r = seed)"
  shows "seed \<notin> all_links (foldl merge_result s rs)"
  using assms
proof (induction rs arbitrary: s)
  case Nil
  then show ?case by simp
next
  case (Cons r rs)
  obtain u l e where r: "r = (u, l, e)" by (cases r)
  from Cons.prems have 1: "seed \<notin> all_links (merge_result s r)"
    unfolding r all_links_merge by auto
  from Cons.prems have 2: "seed \<in> visited (merge_result s r)"
    unfolding r visited_merge by auto
  from Cons.IH[OF 1] 2 show ?case by simp
qed

lemma cover_merge:
  assumes "to_visit s \<union> visited s \<subseteq> insert seed (all_links s)"
    and "u \<in> insert seed (all_links s)"
  shows "to_visit (merge_result s (u, l, e)) \<union> visited (merge_result s (u, l, e))
           \<subseteq> insert seed (all_links (merge_result s (u, l, e)))"
    and "\<not> truthy e \<Longrightarrow> l \<subseteq> insert seed (all_links (merge_result s (u, l, e)))"
    and "all_links s \<subseteq> all_links (merge_result s (u, l, e))"
  using assms unfolding to_visit_merge visited_merge all_links_merge by auto

lemma cover_foldl:
  assumes "to_visit s \<union> visited s \<subseteq> insert seed (all_links s)"
    and "fst ` set rs \<subseteq> insert seed (all_links s)"
  shows "to_visit (foldl merge_result s rs) \<union> visited (foldl merge_result s rs)
           \<subseteq> insert seed (all_links (foldl merge_result s rs))"
  using assms
proof (induction rs arbitrary: s)
  case Nil
  then show ?case by simp
next
  case (Cons r rs)
  obtain u l e where r: "r = (u, l, e)" by (cases r)
  from Cons.prems(2) have u: "u \<in> insert seed (all_links s)" by (simp add: r)
  have 1: "to_visit (merge_result s r) \<union> visited (merge_result s r)
             \<subseteq> insert seed (all_links (merge_result s r))"
    unfolding r using Cons.prems(1) u by (rule cover_merge(1))
  have "all_links s \<subseteq> all_links (merge_result s r)"
    unfolding r using Cons.prems(1) u by (rule cover_merge(3))
  with Cons.prems(2) have 2: "fst ` set rs \<subseteq> insert seed (all_links (merge_result s r))"
    by auto
  from Cons.IH[OF 1 2] show ?case by simp
qed

lemma observed_foldl:
  assumes "to_visit s \<union> visited s \<subseteq> insert seed (all_links s)"
    and "fst ` set rs \<subseteq> insert seed (all_links s)"
    and "(u, l, e) \<in> set rs" and "truthy e \<Longrightarrow> l = {}"
  shows "l \<subseteq> insert seed (all_links (foldl merge_result s rs))"
  using assms(1-3)
proof (induction rs arbitrary: s)
  case Nil
  then show ?case by simp
next
  case (Cons r rs)
  obtain u' l' e' where r: "r = (u', l', e')" by (cases r)
  from Cons.prems(2) have u: "u' \<in> insert seed (all_links s)" by (simp add: r)
  have 1: "to_visit (merge_result s r) \<union> visited (merge_result s r)
             \<subseteq> insert seed (all_links (merge_result s r))"
    unfolding r using Cons.prems(1) u by (rule cover_merge(1))
  have m: "all_links s \<subseteq> all_links (merge_result s r)"
    unfolding r using Cons.prems(1) u by (rule cover_merge(3))
  with Cons.prems(2) have 2: "fst ` set rs \<subseteq> insert seed (all_links (merge_result s r))"
    by auto
  show ?case
  proof (cases "(u, l, e) \<in> set rs")
    case True
    from Cons.IH[OF 1 2 True] show ?thesis by simp
  next
    case False
    with Cons.prems(3) have eq: "r = (u, l, e)" by simp
    have here: "l \<subseteq> insert seed (all_links (merge_result s r))"
    proof (cases "truthy e")
      case True
      with assms(4) show ?thesis by simp
    next
      case False
      from Cons.prems(1) u[unfolded r] have
        "\<not> truthy e' \<Longrightarrow> l' \<subseteq> insert seed (all_links (merge_result s (u', l', e')))"
        by (rule cover_merge(2))
      with False eq r show ?thesis by simp
    qed
    have "all_links (merge_result s r) \<subseteq> all_links (foldl merge_result (merge_result s r) rs)"
      by (rule all_links_foldl)
    with here show ?thesis by auto
  qed
qed

lemma reachable_cover:
  assumes "reachable cfg w s"
  shows "to_visit s \<union> visited s \<subseteq> insert (start_url cfg) (all_links s) \<and>
         start_url cfg \<notin> all_links s \<and>
         (start_url cfg \<in> visited s \<or> to_visit s = {start_url cfg}) \<and>
         (\<forall>u l e. u \<in> visited s \<and> process_page w u = Inr (u, l, e) \<longrightarrow>
            l \<subseteq> insert (start_url cfg) (all_links s))"
  using assms
proof (induction rule: reachable.induct)
  case reach_init
  show ?case by (simp add: initial_state_def)
next
  case (reach_round s s')
  let ?seed = "start_url cfg"
  from reach_round(3) have
    c: "to_visit s \<union> visited s \<subseteq> insert ?seed (all_links s)"
    and n: "?seed \<notin> all_links s"
    and v: "?seed \<in> visited s \<or> to_visit s = {?seed}"
    and o: "\<And>u l e. u \<in> visited s \<Longrightarrow> process_page w u = Inr (u, l, e) \<Longrightarrow>
              l \<subseteq> insert ?seed (all_links s)"
    by blast+
  from reach_round(2) obtain current_batch rs where r:
    "loop_cond cfg s" "is_batch cfg s current_batch" "0 < concurrent_workers cfg"
    "fst ` set rs = set current_batch"
    "\<forall>r \<in> set rs. process_page w (fst r) = Inr r"
    "s' = progress_check cfg (foldl merge_result (s\<lparr>to_visit := to_visit s - set current_batch\<rparr>) rs)"
    by (rule round_cases)
  let ?s1 = "s\<lparr>to_visit := to_visit s - set current_batch\<rparr>"
  let ?s2 = "foldl merge_result ?s1 rs"
  from r(2) have sub: "set current_batch \<subseteq> to_visit s" by (simp add: is_batch_def)
  have c1: "to_visit ?s1 \<union> visited ?s1 \<subseteq> insert ?seed (all_links ?s1)"
    using c by auto
  have b1: "fst ` set rs \<subseteq> insert ?seed (all_links ?s1)"
    using c sub r(4) by auto
  have f: "to_visit s' = to_visit ?s2" "visited s' = visited ?s2" "all_links s' = all_links ?s2"
    by (simp_all add: r(6) progress_check_fields)
  have A: "to_visit s' \<union> visited s' \<subseteq> insert ?seed (all_links s')"
    unfolding f using c1 b1 by (rule cover_foldl)
  have v1: "?seed \<in> visited ?s1 \<or> (\<forall>r \<in> set rs. fst r = ?seed)"
  proof (cases "?seed \<in> visited s")
    case True
    then show ?thesis by simp
  next
    case False
    with v have "to_visit s = {?seed}" by simp
    with sub r(4) have "fst ` set rs \<subseteq> {?seed}" by simp
    then show ?thesis by auto
  qed
  have n1: "?seed \<notin> all_links ?s1" using n by simp
  have B: "?seed \<notin> all_links s'"
    unfolding f using n1 v1 by (rule seed_not_added_foldl)
  have vis: "visited s' = visited s \<union> set current_batch"
    unfolding f by (simp add: visited_foldl r(4))
  have C: "?seed \<in> visited s' \<or> to_visit s' = {?seed}"
  proof (cases "?seed \<in> visited s")
    case True
    with vis show ?thesis by simp
  next
    case False
    with v have tv: "to_visit s = {?seed}" by simp
    then have "finite (to_visit s)" "to_visit s \<noteq> {}" by simp_all
    with r(2,3) have "set current_batch \<noteq> {}" by (intro is_batch_nonempty)
    then obtain x where "x \<in> set current_batch" by (cases current_batch) auto
    with sub tv have "?seed \<in> set current_batch" by auto
    with vis show ?thesis by simp
  qed
  have mono: "all_links s \<subseteq> all_links s'"
    unfolding f using all_links_foldl[of ?s1 rs] by simp
  have D: "l \<subseteq> insert ?seed (all_links s')"
    if u: "u \<in> visited s'" and p: "process_page w u = Inr (u, l, e)" for u l e
  proof (cases "u \<in> set current_batch")
    case True
    with r(4) have "u \<in> fst ` set rs" by simp
    then obtain x where x: "u = fst x" "x \<in> set rs" by (rule imageE)
    with r(5) have "process_page w u = Inr x" by simp
    with p have "x = (u, l, e)" by simp
    with x(2) have mem: "(u, l, e) \<in> set rs" by simp
    have t: "l = {}" if "truthy e"
    proof -
      from that obtain m where "e = Some m" by (cases e) auto
      with p show ?thesis using process_page_error_no_links by blast
    qed
    show ?thesis unfolding f using c1 b1 mem t by (rule observed_foldl)
  next
    case False
    with u vis have "u \<in> visited s" by simp
    from o[OF this p] mono show ?thesis by auto
  qed
  from A B C D show ?case by blast
qed



lemma hl_pp_S: "process_page home_link_world START_URL = Inr (START_URL, {page_A}, None)"
  by code_simp

lemma hl_pp_A:
  "process_page home_link_world page_A = Inr (page_A, {START_URL, page_C}, None)"
  by code_simp

lemma hl_pp_C: "process_page home_link_world page_C = Inr (page_C, {}, None)"
  by code_simp

lemma hl_render_A:
  "render home_link_world page_A = Inr [START_URL, ''https://yc.go.kr/c#top'']"
  by code_simp

lemma hl_valid_seed: "is_valid_link (urlparse home_link_world) START_URL = Inr True"
  by code_simp

lemma hl_valid_C:
  "is_valid_link (urlparse home_link_world) ''https://yc.go.kr/c#top'' = Inr True"
  by code_simp

lemma hl_hash_seed: "before_hash START_URL = START_URL"
  by (simp add: before_hash_def START_URL_def)

lemma hl_hash_C: "before_hash ''https://yc.go.kr/c#top'' = page_C"
  by (simp add: before_hash_def page_C_def)

lemma home_link_round1:
  "round module_config home_link_world (initial_state module_config) home_link_state1"
proof (rule roundI[where current_batch = "[START_URL]" and completed = "[START_URL]"])
  show "loop_cond module_config (initial_state module_config)"
    by (simp add: loop_cond_def module_config_def initial_state_def MAX_PAGES_def)
  show "is_batch module_config (initial_state module_config) [START_URL]"
    by (simp add: is_batch_def module_config_def initial_state_def CONCURRENT_WORKERS_def)
  show "is_completion_order [START_URL] [START_URL]"
    by (simp add: is_completion_order_def)
  show "round_step module_config home_link_world (initial_state module_config)
          [START_URL] [START_URL] = Inr home_link_state1"
    using scenario_distinct
    by (auto simp: round_step_def hl_pp_S module_config_def initial_state_def
        home_link_state1_def progress_check_def Let_def CHECK_INTERVAL_def
        CONCURRENT_WORKERS_def)
qed

lemma home_link_round2:
  "round module_config home_link_world home_link_state1 home_link_state2"
proof (rule roundI[where current_batch = "[page_A]" and completed = "[page_A]"])
  show "loop_cond module_config home_link_state1"
    by (simp add: loop_cond_def module_config_def home_link_state1_def MAX_PAGES_def)
  show "is_batch module_config home_link_state1 [page_A]"
    by (simp add: is_batch_def module_config_def home_link_state1_def CONCURRENT_WORKERS_def)
  show "is_completion_order [page_A] [page_A]"
    by (simp add: is_completion_order_def)
  show "round_step module_config home_link_world home_link_state1 [page_A] [page_A]
          = Inr home_link_state2"
    using scenario_distinct
    by (auto simp: round_step_def hl_pp_A module_config_def home_link_state1_def
        home_link_state2_def progress_check_def Let_def CHECK_INTERVAL_def
        CONCURRENT_WORKERS_def)
qed

lemma home_link_round3:
  "round module_config home_link_world home_link_state2 home_link_final"
proof (rule roundI[where current_batch = "[page_C]" and completed = "[page_C]"])
  have "card (visited home_link_state2) = 2"
    using scenario_distinct by (simp add: home_link_state2_def)
  then show "loop_cond module_config home_link_state2"
    by (simp add: loop_cond_def module_config_def MAX_PAGES_def)
       (simp add: home_link_state2_def)
  show "is_batch module_config home_link_state2 [page_C]"
    by (simp add: is_batch_def module_config_def home_link_state2_def CONCURRENT_WORKERS_def)
  show "is_completion_order [page_C] [page_C]"
    by (simp add: is_completion_order_def)
  show "round_step module_config home_link_world home_link_state2 [page_C] [page_C]
          = Inr home_link_final"
    using scenario_distinct
    by (auto simp: round_step_def hl_pp_C module_config_def home_link_state2_def
        home_link_final_def progress_check_def Let_def CHECK_INTERVAL_def
        CONCURRENT_WORKERS_def)
qed

lemma home_link_exit: "crawl_exit module_config home_link_world home_link_final"
proof -
  have "reachable module_config home_link_world home_link_final"
    using reach_round[OF reach_round[OF reach_round[OF reach_init home_link_round1]
      home_link_round2] home_link_round3] .
  moreover have "\<not> loop_cond module_config home_link_final"
    by (simp add: loop_cond_def home_link_final_def)
  ultimately show ?thesis by (simp add: crawl_exit_def)
qed

text \<open>
  C4, as stated, fails for the seed URL. With the module's constants, in the world where
  page A links back to the seed, the crawl exits with \<open>all_links = {A, C}\<close>: the seed URL
  is an href of the fetched page A, the filter accepts it, and it is not in \<open>all_links\<close>.
\<close>

theorem seed_missing_from_all_links:
  "crawl_exit module_config home_link_world home_link_final \<and>
   start_url module_config = START_URL \<and>
   page_A \<in> visited home_link_final \<and>
   render home_link_world page_A = Inr [START_URL, ''https://yc.go.kr/c#top''] \<and>
   is_valid_link (urlparse home_link_world) START_URL = Inr True \<and>
   before_hash START_URL = START_URL \<and>
   process_page home_link_world page_A = Inr (page_A, {START_URL, page_C}, None) \<and>
   all_links home_link_final = {page_A, page_C} \<and>
   START_URL \<notin> all_links home_link_final"
proof -
  have a: "start_url module_config = START_URL" by (simp add: module_config_def)
  have b: "page_A \<in> visited home_link_final" by (simp add: home_link_final_def)
  have c: "all_links home_link_final = {page_A, page_C}" by (simp add: home_link_final_def)
  have d: "START_URL \<notin> all_links home_link_final"
    using scenario_distinct by (simp add: home_link_final_def)
  from home_link_exit a b hl_render_A hl_valid_seed hl_hash_seed hl_pp_A c d
  show ?thesis by (intro conjI)
qed

text \<open>
  C4, amended. In every state at the head of the loop, and so at the exit of the crawl:
  for every visited URL whose fetch raised nothing, every href of its page that the
  filter accepts is, cut at its first \<^verbatim>\<open>#\<close>, among the links \<^verbatim>\<open>process_page\<close> returned, and
  each of these links is in \<open>all_links\<close> unless it is the seed URL; the seed URL is
  never in \<open>all_links\<close>.
\<close>

theorem all_links_complete_except_seed:
  assumes "reachable cfg w s" and "u \<in> visited s"
    and "process_page w u = Inr (u, links, None)"
    and "render w u = Inr hrefs" and "href \<in> set hrefs"
    and "is_valid_link (urlparse w) href = Inr True"
  shows "before_hash href \<in> links \<and>
         links \<subseteq> insert (start_url cfg) (all_links s) \<and>
         start_url cfg \<notin> all_links s"
proof -
  from assms(3,4) have
    "links = {before_hash h |h. h \<in> set hrefs \<and> is_valid_link (urlparse w) h = Inr True}"
    by (rule process_page_links)
  with assms(5,6) have 1: "before_hash href \<in> links" by blast
  note inv = reachable_cover[OF assms(1)]
  from inv assms(2,3) have 2: "links \<subseteq> insert (start_url cfg) (all_links s)" by blast
  from inv have 3: "start_url cfg \<notin> all_links s" by blast
  from 1 2 3 show ?thesis by (intro conjI)
qed

text \<open>
  At the exit of the crawl in the world above: the href \<^verbatim>\<open>https://yc.go.kr/c#top\<close> of
  page A is in \<open>all_links\<close> as C, and the seed URL is not.
\<close>

theorem all_links_complete_except_seed_witness:
  "reachable module_config home_link_world home_link_final \<and>
   \<not> loop_cond module_config home_link_final \<and>
   page_A \<in> visited home_link_final \<and>
   process_page home_link_world page_A = Inr (page_A, {START_URL, page_C}, None) \<and>
   render home_link_world page_A = Inr [START_URL, ''https://yc.go.kr/c#top''] \<and>
   ''https://yc.go.kr/c#top'' \<in> set [START_URL, ''https://yc.go.kr/c#top''] \<and>
   is_valid_link (urlparse home_link_world) ''https://yc.go.kr/c#top'' = Inr True \<and>
   before_hash ''https://yc.go.kr/c#top'' = page_C \<and>
   page_C \<in> {START_URL, page_C} \<and>
   {START_URL, page_C} \<subseteq> insert (start_url module_config) (all_links home_link_final) \<and>
   page_C \<in> all_links home_link_final \<and>
   start_url module_config \<notin> all_links home_link_final"
proof -
  from home_link_exit have r: "reachable module_config home_link_world home_link_final"
    and l: "\<not> loop_cond module_config home_link_final"
    by (simp_all add: crawl_exit_def)
  have v: "page_A \<in> visited home_link_final" by (simp add: home_link_final_def)
  have m: "''https://yc.go.kr/c#top'' \<in> set [START_URL, ''https://yc.go.kr/c#top'']"
    by simp
  note res = all_links_complete_except_seed[OF r v hl_pp_A hl_render_A m hl_valid_C]
  from res have 1: "page_C \<in> {START_URL, page_C}"
    and 2: "{START_URL, page_C} \<subseteq> insert (start_url module_config) (all_links home_link_final)"
    and 3: "start_url module_config \<notin> all_links home_link_final"
    unfolding hl_hash_C by blast+
  have 4: "page_C \<in> all_links home_link_final" by (simp add: home_link_final_def)
  from r l v hl_pp_A hl_render_A m hl_valid_C hl_hash_C 1 2 3 4 show ?thesis
    by (intro conjI)
qed

end
